theory Spec2Isabelle
  imports Main
begin

section \<open>Exceptions and results\<close>

text \<open>
  The Python exceptions that the normalizer can meet. \<open>SystemExit\<close> is what
  \<^verbatim>\<open>sys.exit()\<close> raises; \<open>TypeError\<close> is what Python 2 raises for
  \<^verbatim>\<open>raise("a string")\<close>. The first five are the ones the handler around the
  parser call names.
\<close>

datatype exn =
    MatchedPairError
  | ParsingError
  | NotImplementedError
  | IndexError
  | AttributeError
  | ValueError string
  | TypeError
  | SystemExit

definition bnd :: "exn + 'a \<Rightarrow> ('a \<Rightarrow> exn + 'b) \<Rightarrow> exn + 'b" where
  "bnd m f = (case m of Inl e \<Rightarrow> Inl e | Inr x \<Rightarrow> f x)"

definition deref :: "'a option \<Rightarrow> exn + 'a" where
  \<comment> \<open>an attribute access on \<open>None\<close> raises AttributeError\<close>
  "deref p = (case p of None \<Rightarrow> Inl AttributeError | Some a \<Rightarrow> Inr a)"

section \<open>The Node class, as objects in a store\<close>

text \<open>
  A \<open>Node\<close> object holds references to its parent, its left and right sibling and
  its children. The objects live in a store: a list of records, an object's address
  being its index; creating an object appends a record.
\<close>

record node =
  parent :: "nat option"
  lsb :: "nat option"
  rsb :: "nat option"
  kind :: string
  nvalue :: string
  children :: "nat list"

type_synonym store = "node list"

definition Node :: "store \<Rightarrow> string \<Rightarrow> string \<Rightarrow> store \<times> nat" where
  \<comment> \<open>\<open>Node(kind=k, value=v)\<close>: parent, lsb and rsb are None, no children\<close>
  "Node h k v =
     (h @ [\<lparr>parent = None, lsb = None, rsb = None, kind = k, nvalue = v, children = []\<rparr>],
      length h)"

definition addChild :: "store \<Rightarrow> nat \<Rightarrow> nat \<Rightarrow> store" where
  "addChild h p c = h[p := (h ! p)\<lparr>children := children (h ! p) @ [c]\<rparr>]"

definition getNumChildren :: "store \<Rightarrow> nat \<Rightarrow> nat" where
  "getNumChildren h p = length (children (h ! p))"

definition getRightChild :: "store \<Rightarrow> nat \<Rightarrow> nat option" where
  "getRightChild h p =
     (if length (children (h ! p)) \<ge> 1 then Some (last (children (h ! p))) else None)"

definition removeChild :: "store \<Rightarrow> nat \<Rightarrow> nat \<Rightarrow> exn + store" where
  \<comment> \<open>\<open>list.remove\<close> deletes the first occurrence and raises ValueError when there is none\<close>
  "removeChild h p c =
     (if c \<in> set (children (h ! p))
      then Inr (h[p := (h ! p)\<lparr>children := remove1 c (children (h ! p))\<rparr>])
      else Inl (ValueError ''list.remove(x): x not in list''))"

definition attach_to_tree :: "store \<Rightarrow> nat \<Rightarrow> nat option \<Rightarrow> exn + store" where
  "attach_to_tree h n par =
     (let h1 = h[n := (h ! n)\<lparr>parent := par\<rparr>] in
      bnd (deref par) (\<lambda>p.
        let l = getRightChild h1 p;
            h2 = h1[n := (h1 ! n)\<lparr>lsb := l\<rparr>];
            h3 = addChild h2 p n
        in (case l of
              None \<Rightarrow> Inr h3
            | Some a \<Rightarrow> Inr (h3[a := (h3 ! a)\<lparr>rsb := Some n\<rparr>]))))"

definition make_sibling :: "store \<Rightarrow> nat option \<Rightarrow> nat option \<Rightarrow> store" where
  "make_sibling h l r =
     (let h1 = (case l of None \<Rightarrow> h | Some a \<Rightarrow> h[a := (h ! a)\<lparr>rsb := r\<rparr>])
      in (case r of None \<Rightarrow> h1 | Some b \<Rightarrow> h1[b := (h1 ! b)\<lparr>lsb := l\<rparr>]))"

section \<open>The raw tree of the external parser\<close>

text \<open>
  A raw node carries its kind and, depending on the kind, a word, a list of parts, an
  inner command and a position span. \<open>rparts = None\<close> and \<open>rcommand = None\<close> stand for
  a node without that attribute (\<^verbatim>\<open>hasattr(node, 'parts')\<close> is false).
\<close>

datatype raw =
  Raw (rkind: string) (rword: string) (rparts: "raw list option") (rcommand: "raw option")
      (rpos: "int \<times> int")

text \<open>
  What \<open>normalize_ast\<close> closes over: the command text after the pre-pass, the
  \<open>normalize_digits\<close> switch, and the catalogue module \<open>bash\<close>, which is outside the
  repository's sources and is taken as parameters: \<open>bash.is_headcommand\<close>,
  \<open>bash.is_option\<close>, and \<open>digit_sub w\<close> for
  \<^verbatim>\<open>re.sub(bash._DIGIT_RE, bash._NUM, w)\<close>.
\<close>

record env =
  cmd :: string
  normalize_digits :: bool
  is_headcommand :: "string \<Rightarrow> bool"
  is_option :: "string \<Rightarrow> bool"
  digit_sub :: "string \<Rightarrow> string"

definition unary_logic_operators :: "string set" where
  "unary_logic_operators = {''!'', ''-not''}"

definition binary_logic_operators :: "string set" where
  "binary_logic_operators = {''-and'', ''-or'', ''||'', ''&&'', ''-o'', ''-a''}"

definition is_unary_logic_op :: "store \<Rightarrow> string \<Rightarrow> nat option \<Rightarrow> bool" where
  \<comment> \<open>the truth value of \<open>parent and parent.kind == ... and parent.value == ...\<close>\<close>
  "is_unary_logic_op h w par =
     (if w = ''!''
      then (case par of
              None \<Rightarrow> False
            | Some p \<Rightarrow> kind (h ! p) = ''headcommand'' \<and> nvalue (h ! p) = ''find'')
      else w \<in> unary_logic_operators)"

definition is_binary_logic_op :: "store \<Rightarrow> string \<Rightarrow> nat option \<Rightarrow> bool \<times> string" where
  \<comment> \<open>the answer, and the word of the raw node afterwards (\<open>-o\<close>, \<open>-a\<close> are rewritten in place)\<close>
  "is_binary_logic_op h w par =
     (let under_find = (case par of
                          None \<Rightarrow> False
                        | Some p \<Rightarrow> kind (h ! p) = ''headcommand'' \<and> nvalue (h ! p) = ''find'')
      in if w = ''-o'' then (if under_find then (True, ''-or'') else (False, w))
         else if w = ''-a'' then (if under_find then (True, ''-and'') else (False, w))
         else (w \<in> binary_logic_operators, w))"

section \<open>Value normalization\<close>

definition py_slice :: "'a list \<Rightarrow> int \<Rightarrow> int \<Rightarrow> 'a list" where
  \<comment> \<open>\<open>xs[i:j]\<close>: a negative index counts from the end, both are clamped to the list\<close>
  "py_slice xs i j =
     (let n = int (length xs);
          a = (if i < 0 then max (i + n) 0 else min i n);
          b = (if j < 0 then max (j + n) 0 else min j n)
      in take (nat (b - a)) (drop (nat a) xs))"

definition with_quotation :: "raw \<Rightarrow> bool" where
  "with_quotation nd = (snd (rpos nd) - fst (rpos nd) - int (length (rword nd)) = 2)"

definition recover_quotation :: "env \<Rightarrow> raw \<Rightarrow> string" where
  "recover_quotation e nd =
     (if with_quotation nd then py_slice (cmd e) (fst (rpos nd)) (snd (rpos nd))
      else rword nd)"

definition normalize_word :: "env \<Rightarrow> raw \<Rightarrow> bool \<Rightarrow> bool \<Rightarrow> string" where
  "normalize_word e nd norm_digit recover_quote =
     (let w = (if recover_quote then recover_quotation e nd else rword nd)
      in if norm_digit \<and> \<not> is_option e w then digit_sub e w else w)"

section \<open>Node classes\<close>

definition ArgumentNode :: "store \<Rightarrow> string \<Rightarrow> string \<Rightarrow> store \<times> nat" where
  "ArgumentNode h k v = Node h k v"

definition UnaryLogicOpNode :: "store \<Rightarrow> string \<Rightarrow> store \<times> nat" where
  "UnaryLogicOpNode h v = Node h ''unarylogicop'' v"

definition BinaryLogicOpNode :: "store \<Rightarrow> string \<Rightarrow> store \<times> nat" where
  "BinaryLogicOpNode h v = Node h ''binarylogicop'' v"

definition PipelineNode :: "store \<Rightarrow> store \<times> nat" where
  "PipelineNode h = Node h ''pipeline'' []"

definition CommandSubstitutionNode :: "store \<Rightarrow> store \<times> nat" where
  "CommandSubstitutionNode h = Node h ''commandsubstitution'' []"

definition ProcessSubstitutionNode :: "store \<Rightarrow> string \<Rightarrow> exn + store \<times> nat" where
  "ProcessSubstitutionNode h v =
     (if v = ''<'' \<or> v = ''>'' then Inr (Node h ''processsubstitution'' v)
      else Inl (ValueError (''Value of a processsubstitution has to be '' @ [CHR 0x27] @ ''<''
             @ [CHR 0x27] @ '' or '' @ [CHR 0x27] @ ''>'' @ [CHR 0x27] @ ''.'')))"

section \<open>Command normalization: the walk over the tokens\<close>

text \<open>
  The local variables of \<open>normalize_command\<close>, together with the store: the loop over
  \<open>node.parts\<close> threads them from token to token.
\<close>

record cstate =
  st_store :: store
  attach_point :: "nat option"
  END_OF_OPTIONS :: bool
  END_OF_COMMAND :: bool
  unary_logic_ops :: "nat list"
  binary_logic_ops :: "nat list"

definition find_flag_attach_point :: "store \<Rightarrow> nat option \<Rightarrow> exn + nat option" where
  "find_flag_attach_point h ap =
     bnd (deref ap) (\<lambda>a.
       if kind (h ! a) = ''flag'' then Inr (parent (h ! a))
       else if kind (h ! a) = ''headcommand'' then Inr (Some a)
       else Inl (ValueError ''Error: cannot decide where to attach flag node''))"

text \<open>
  \<open>norm\<close> stands for \<open>normalize\<close> applied to the token at hand: it takes the node to
  attach to, the argument type and the store.
\<close>

definition attach_option ::
  "(nat option \<Rightarrow> string \<Rightarrow> store \<Rightarrow> exn + store) \<Rightarrow> store \<Rightarrow> nat option
     \<Rightarrow> exn + store \<times> nat option" where
  "attach_option norm h ap0 =
     bnd (find_flag_attach_point h ap0) (\<lambda>ap.
     bnd (norm ap ''flag'' h) (\<lambda>h'.
     bnd (deref ap) (\<lambda>a. Inr (h', getRightChild h' a))))"

definition end_of_command_step :: "cstate \<Rightarrow> exn + cstate" where
  \<comment> \<open>the head of the loop body: leave the utility that a \<open>;\<close> has closed\<close>
  "end_of_command_step st =
     (if END_OF_COMMAND st then
        bnd (deref (attach_point st)) (\<lambda>a.
          let ap = parent (st_store st ! a) in
          bnd (deref ap) (\<lambda>p.
            if kind (st_store st ! p) = ''flag''
            then Inr (st\<lparr>attach_point := parent (st_store st ! p), END_OF_COMMAND := False\<rparr>)
            else if kind (st_store st ! p) = ''headcommand''
            then Inr (st\<lparr>attach_point := ap, END_OF_COMMAND := False\<rparr>)
            else Inl (ValueError ''Error: compound command detected.'')))
      else Inr st)"

definition dispatch_token ::
  "env \<Rightarrow> (nat option \<Rightarrow> string \<Rightarrow> store \<Rightarrow> exn + store) \<Rightarrow> raw \<Rightarrow> cstate \<Rightarrow> exn + cstate" where
  \<comment> \<open>the rest of the loop body: the chain of tests on \<open>child.kind\<close> and \<open>child.word\<close>\<close>
  "dispatch_token e norm child st =
     (let h = st_store st; w = rword child in
      if rkind child = ''word'' then
        (if w = ''--'' then Inr (st\<lparr>END_OF_OPTIONS := True\<rparr>)
         else if w = '';'' then Inr (st\<lparr>END_OF_COMMAND := True\<rparr>)
         else if w \<in> unary_logic_operators then
           bnd (find_flag_attach_point h (attach_point st)) (\<lambda>ap.
             if is_unary_logic_op h w ap then
               (let (h1, n) = UnaryLogicOpNode h w in
                bnd (attach_to_tree h1 n ap) (\<lambda>h2.
                  Inr (st\<lparr>st_store := h2, attach_point := ap,
                          unary_logic_ops := unary_logic_ops st @ [n]\<rparr>)))
             else
               bnd (attach_option norm h ap) (\<lambda>(h2, ap2).
                 Inr (st\<lparr>st_store := h2, attach_point := ap2\<rparr>)))
         else if w \<in> binary_logic_operators then
           bnd (find_flag_attach_point h (attach_point st)) (\<lambda>ap.
             let (b, w') = is_binary_logic_op h w ap in
             if b then
               (let (h1, n) = BinaryLogicOpNode h w' in
                bnd (attach_to_tree h1 n ap) (\<lambda>h2.
                  Inr (st\<lparr>st_store := h2, attach_point := ap,
                          binary_logic_ops := binary_logic_ops st @ [n]\<rparr>)))
             else
               bnd (attach_option norm h ap) (\<lambda>(h2, ap2).
                 Inr (st\<lparr>st_store := h2, attach_point := ap2\<rparr>)))
         else if is_headcommand e w then
           (if \<not> with_quotation child then
              bnd (norm (attach_point st) ''headcommand'' h) (\<lambda>h2.
              bnd (deref (attach_point st)) (\<lambda>a.
                Inr (st\<lparr>st_store := h2, attach_point := getRightChild h2 a\<rparr>)))
            else Inr st)
         else if is_option e w \<and> \<not> END_OF_OPTIONS st then
           bnd (attach_option norm h (attach_point st)) (\<lambda>(h2, ap2).
             Inr (st\<lparr>st_store := h2, attach_point := ap2\<rparr>))
         else
           bnd (deref (attach_point st)) (\<lambda>a.
             let ap = (if is_option e (nvalue (h ! a)) \<and> getNumChildren h a \<ge> 1
                       then parent (h ! a) else Some a)
             in bnd (norm ap ''argument'' h) (\<lambda>h2.
                  Inr (st\<lparr>st_store := h2, attach_point := ap\<rparr>))))
      else if rkind child = ''assignment'' then
        bnd (norm (attach_point st) ''assignment'' h) (\<lambda>h2. Inr (st\<lparr>st_store := h2\<rparr>))
      else Inl SystemExit)"

definition command_token ::
  "env \<Rightarrow> (nat option \<Rightarrow> string \<Rightarrow> store \<Rightarrow> exn + store) \<Rightarrow> raw \<Rightarrow> cstate \<Rightarrow> exn + cstate" where
  \<comment> \<open>one turn of the loop \<open>for child in node.parts\<close>\<close>
  "command_token e norm child st = bnd (end_of_command_step st) (dispatch_token e norm child)"

section \<open>Command normalization: folding the logic operators\<close>

definition fold_unary_op :: "store \<Rightarrow> nat \<Rightarrow> nat \<Rightarrow> exn + store" where
  \<comment> \<open>the body of the first loop once \<open>rsb\<close> is known not to be None\<close>
  "fold_unary_op h n r =
     (let h1 = make_sibling h (Some n) (rsb (h ! r)) in
      bnd (deref (parent (h1 ! n))) (\<lambda>p.
      bnd (removeChild h1 p r) (\<lambda>h2.
        let h3 = h2[r := (h2 ! r)\<lparr>parent := Some n\<rparr>];
            h4 = h3[r := (h3 ! r)\<lparr>lsb := None\<rparr>];
            h5 = h4[r := (h4 ! r)\<lparr>rsb := None\<rparr>]
        in Inr (addChild h5 n r))))"

fun process_unary_logic_ops :: "nat list \<Rightarrow> store \<Rightarrow> exn + bool \<times> store" where
  \<comment> \<open>the flag of the result tells whether the loop left through \<open>return\<close>\<close>
  "process_unary_logic_ops [] h = Inr (False, h)"
| "process_unary_logic_ops (n # ns) h =
     (case rsb (h ! n) of
        None \<Rightarrow> Inr (True, h)
      | Some r \<Rightarrow> bnd (fold_unary_op h n r) (process_unary_logic_ops ns))"

definition fold_binary_op :: "store \<Rightarrow> nat \<Rightarrow> exn + store" where
  "fold_binary_op h n =
     (case (rsb (h ! n), lsb (h ! n)) of
        (Some r, Some l) \<Rightarrow>
          (let h1 = make_sibling h (Some n) (rsb (h ! r));
               h2 = make_sibling h1 (lsb (h1 ! l)) (Some n)
           in bnd (deref (parent (h2 ! n))) (\<lambda>p.
              bnd (removeChild h2 p r) (\<lambda>h3.
              bnd (deref (parent (h3 ! n))) (\<lambda>p'.
              bnd (removeChild h3 p' l) (\<lambda>h4.
                let h5 = h4[r := (h4 ! r)\<lparr>parent := Some n\<rparr>];
                    h6 = h5[l := (h5 ! l)\<lparr>parent := Some n\<rparr>];
                    h7 = make_sibling h6 (Some l) (Some r);
                    h8 = h7[r := (h7 ! r)\<lparr>rsb := None\<rparr>];
                    h9 = h8[l := (h8 ! l)\<lparr>lsb := None\<rparr>]
                in Inr (addChild (addChild h9 n l) n r))))))
      | _ \<Rightarrow> Inl SystemExit)"

fun process_binary_logic_ops :: "nat list \<Rightarrow> store \<Rightarrow> exn + store" where
  "process_binary_logic_ops [] h = Inr h"
| "process_binary_logic_ops (n # ns) h = bnd (fold_binary_op h n) (process_binary_logic_ops ns)"

definition process_logic_operators :: "cstate \<Rightarrow> exn + store" where
  \<comment> \<open>the two loops after the walk; a \<open>return\<close> in the first skips the second\<close>
  "process_logic_operators st =
     bnd (process_unary_logic_ops (unary_logic_ops st) (st_store st)) (\<lambda>(returned, h).
       if returned then Inr h else process_binary_logic_ops (binary_logic_ops st) h)"

section \<open>The Tree Builder\<close>

text \<open>
  The body of \<open>normalize(node, current, arg_type)\<close>. Its recursive calls are passed in:
  \<open>loop\<close> is \<^verbatim>\<open>for child in node.parts: normalize(child, _)\<close>,
  \<open>first\<close> is \<^verbatim>\<open>normalize(node.parts[0], _)\<close>,
  \<open>inner\<close> is \<^verbatim>\<open>normalize(node.command, _)\<close>,
  \<open>pipe_loop\<close> is the loop over the parts of a pipeline and \<open>cmd_loop\<close> the loop of
  \<open>normalize_command\<close>. The result is the store after the call; the Python function
  returns nothing.

  In \<open>normalize_word(node, normalize_digits, recover_quotation)\<close> the third argument
  names the nested function \<open>recover_quotation\<close>, which has replaced the parameter of
  that name by the time \<open>normalize\<close> runs: it is a function object, hence true.
\<close>

definition normalize_command ::
  "(cstate \<Rightarrow> exn + cstate) \<Rightarrow> raw \<Rightarrow> nat option \<Rightarrow> store \<Rightarrow> exn + store" where
  "normalize_command cmd_loop nd current h =
     bnd (deref (rparts nd)) (\<lambda>ps.
     bnd (cmd_loop \<lparr>st_store = h, attach_point = current, END_OF_OPTIONS = False,
                   END_OF_COMMAND = False, unary_logic_ops = [], binary_logic_ops = []\<rparr>)
         process_logic_operators)"

definition normalize_leaf :: "env \<Rightarrow> raw \<Rightarrow> nat option \<Rightarrow> string \<Rightarrow> store \<Rightarrow> exn + store" where
  \<comment> \<open>the three lines that make a leaf of a word: they occur twice in \<open>normalize\<close>\<close>
  "normalize_leaf e nd current arg_type h =
     (let v = normalize_word e nd (normalize_digits e) True;
          (h1, n) = ArgumentNode h arg_type v
      in attach_to_tree h1 n current)"

definition normalize_node ::
  "env \<Rightarrow> (nat option \<Rightarrow> store \<Rightarrow> exn + store) \<Rightarrow> (nat option \<Rightarrow> store \<Rightarrow> exn + store)
     \<Rightarrow> (nat option \<Rightarrow> store \<Rightarrow> exn + store) \<Rightarrow> (nat \<Rightarrow> store \<Rightarrow> exn + store)
     \<Rightarrow> (cstate \<Rightarrow> exn + cstate)
     \<Rightarrow> raw \<Rightarrow> nat option \<Rightarrow> string \<Rightarrow> store \<Rightarrow> exn + store" where
  "normalize_node e loop first inner pipe_loop cmd_loop nd current arg_type h =
     (let k = rkind nd in
      if k = ''word'' then
        bnd (deref (rparts nd)) (\<lambda>ps.
          if ps \<noteq> [] then
            (if rkind (hd ps) = ''processsubstitution'' then
               (if CHR ''>'' \<in> set (rword nd) then
                  bnd (ProcessSubstitutionNode h ''>'') (\<lambda>(h1, n).
                  bnd (attach_to_tree h1 n current) (loop (Some n)))
                else if CHR ''<'' \<in> set (rword nd) then
                  bnd (ProcessSubstitutionNode h ''<'') (\<lambda>(h1, n).
                  bnd (attach_to_tree h1 n current) (loop (Some n)))
                else Inr h)
             else if rkind (hd ps) = ''commandsubstitution'' then
               (let (h1, n) = CommandSubstitutionNode h in
                bnd (attach_to_tree h1 n current) (loop (Some n)))
             else if rkind (hd ps) = ''parameter'' \<or> rkind (hd ps) = ''tilde'' then
               normalize_leaf e nd current arg_type h
             else loop current h)
          else normalize_leaf e nd current arg_type h)
      else if k = ''pipeline'' then
        (let (h1, n) = PipelineNode h in
         bnd (attach_to_tree h1 n current) (\<lambda>h2.
         bnd (deref (rparts nd)) (\<lambda>ps.
           if length ps mod 2 = 0 then Inl SystemExit
           else pipe_loop n h2)))
      else if k = ''list'' then
        bnd (deref (rparts nd)) (\<lambda>ps.
          if length ps > 2 then Inl TypeError
          else if ps = [] then Inl IndexError
          else first current h)
      else if k = ''commandsubstitution'' \<or> k = ''processsubstitution'' then
        bnd (deref (rcommand nd)) (\<lambda>c. inner current h)
      else if k = ''command'' then normalize_command cmd_loop nd current h
      else if rparts nd \<noteq> None then loop current h
      else if k = ''operator'' then Inl (ValueError ''Unsupported: operator'')
      else if k = ''parameter'' then Inl (ValueError ''Unsupported: parameters'')
      else if k = ''redirect'' then Inl (ValueError ''Unsupported: redirect'')
      else if k = ''for'' then Inl (ValueError ''Unsupported: for'')
      else if k = ''if'' then Inl (ValueError ''Unsupported: if'')
      else if k = ''while'' then Inl (ValueError ''Unsupported: while'')
      else if k = ''until'' then Inl (ValueError ''Unsupported: until'')
      else if k = ''assignment'' then Inl (ValueError ''Unsupported: assignment'')
      else if k = ''function'' then Inl (ValueError ''Unsupported: function'')
      else if k = ''tilde'' then Inl (ValueError ''Unsupported: tilde'')
      else if k = ''heredoc'' then Inl (ValueError ''Unsupported: heredoc'')
      else Inr h)"

definition parts_list :: "raw \<Rightarrow> raw list" where
  \<comment> \<open>\<open>node.parts\<close>, empty for a node without the attribute\<close>
  "parts_list nd = (case rparts nd of None \<Rightarrow> [] | Some ps \<Rightarrow> ps)"

definition command_list :: "raw \<Rightarrow> raw list" where
  \<comment> \<open>\<open>node.command\<close> as a list of at most one node\<close>
  "command_list nd = (case rcommand nd of None \<Rightarrow> [] | Some c \<Rightarrow> [c])"

lemma size_parts_list: "size_list size (parts_list nd) < size nd"
  by (cases nd) (simp add: parts_list_def split: option.split)

lemma size_command_list: "size_list size (command_list nd) < size nd"
  by (cases nd) (simp add: command_list_def split: option.split)

text \<open>
  \<open>normalize\<close> with its loops. \<open>normalize_first\<close> normalizes the first node of a
  list, \<open>normalize_parts\<close> is the plain loop (default \<open>arg_type\<close>, the empty string),
  \<open>normalize_pipeline_parts\<close> the loop over a pipeline's parts and
  \<open>normalize_command_parts\<close> the loop of \<open>normalize_command\<close>.
\<close>

function normalize :: "env \<Rightarrow> raw \<Rightarrow> nat option \<Rightarrow> string \<Rightarrow> store \<Rightarrow> exn + store"
  and normalize_first :: "env \<Rightarrow> raw list \<Rightarrow> nat option \<Rightarrow> store \<Rightarrow> exn + store"
  and normalize_parts :: "env \<Rightarrow> raw list \<Rightarrow> nat option \<Rightarrow> store \<Rightarrow> exn + store"
  and normalize_pipeline_parts :: "env \<Rightarrow> raw list \<Rightarrow> nat \<Rightarrow> store \<Rightarrow> exn + store"
  and normalize_command_parts :: "env \<Rightarrow> raw list \<Rightarrow> cstate \<Rightarrow> exn + cstate"
where
  "normalize e nd current arg_type h =
     normalize_node e
       (\<lambda>c h'. normalize_parts e (parts_list nd) c h')
       (\<lambda>c h'. normalize_first e (parts_list nd) c h')
       (\<lambda>c h'. normalize_first e (command_list nd) c h')
       (\<lambda>n h'. normalize_pipeline_parts e (parts_list nd) n h')
       (\<lambda>st. normalize_command_parts e (parts_list nd) st)
       nd current arg_type h"
| "normalize_first e [] current h = Inl IndexError"
| "normalize_first e (child # rest) current h = normalize e child current [] h"
| "normalize_parts e [] current h = Inr h"
| "normalize_parts e (child # rest) current h =
     bnd (normalize e child current [] h) (\<lambda>h'. normalize_parts e rest current h')"
| "normalize_pipeline_parts e [] n h = Inr h"
| "normalize_pipeline_parts e (child # rest) n h =
     (if rkind child = ''command'' then
        bnd (normalize e child (Some n) [] h) (\<lambda>h'. normalize_pipeline_parts e rest n h')
      else if rkind child = ''pipe'' then normalize_pipeline_parts e rest n h
      else Inl (ValueError ''Error: unrecognized type of child of pipeline node''))"
| "normalize_command_parts e [] st = Inr st"
| "normalize_command_parts e (child # rest) st =
     bnd (command_token e (\<lambda>ap t h. normalize e child ap t h) child st)
         (\<lambda>st'. normalize_command_parts e rest st')"
  by pat_completeness auto

termination
  by (relation "measure (case_sum
         (case_sum (\<lambda>(e, nd, c, t, h). size nd) (\<lambda>(e, ps, c, h). size_list size ps))
         (case_sum (\<lambda>(e, ps, c, h). size_list size ps)
            (case_sum (\<lambda>(e, ps, n, h). size_list size ps)
                      (\<lambda>(e, ps, st). size_list size ps))))")
     (simp_all add: size_parts_list size_command_list)

section \<open>The orchestrator\<close>

definition startswith :: "string \<Rightarrow> string \<Rightarrow> bool" where
  "startswith s p = (take (length p) s = p)"

definition is_space :: "char \<Rightarrow> bool" where
  \<comment> \<open>the characters that \<open>str.strip()\<close> removes\<close>
  "is_space c = (c \<in> {CHR '' '', CHR 0x09, CHR 0x0A, CHR 0x0B, CHR 0x0C, CHR 0x0D})"

definition py_strip :: "string \<Rightarrow> string" where
  "py_strip s = rev (dropWhile is_space (rev (dropWhile is_space s)))"

function py_replace :: "string \<Rightarrow> string \<Rightarrow> string \<Rightarrow> string" where
  \<comment> \<open>\<open>s.replace(old, new)\<close> for a non-empty \<open>old\<close>: every occurrence, left to right\<close>
  "py_replace old new [] = []"
| "py_replace old new (c # cs) =
     (if old \<noteq> [] \<and> startswith (c # cs) old
      then new @ py_replace old new (drop (length old) (c # cs))
      else c # py_replace old new cs)"
  by pat_completeness auto

termination
  by (relation "measure (\<lambda>(old, new, s). length s)") (auto simp: neq_Nil_conv)

definition is_word_char :: "char \<Rightarrow> bool" where
  \<comment> \<open>the class \<open>\w\<close> of a byte pattern: letters, digits and the underscore\<close>
  "is_word_char c =
     (let n = (of_char c :: nat)
      in (97 \<le> n \<and> n \<le> 122) \<or> (65 \<le> n \<and> n \<le> 90) \<or> (48 \<le> n \<and> n \<le> 57) \<or> n = 95)"

function findall_tar_fix :: "string \<Rightarrow> string list" where
  \<comment> \<open>\<^verbatim>\<open>re.findall(' tar \w', s)\<close>: the matches, left to right, not overlapping\<close>
  "findall_tar_fix [] = []"
| "findall_tar_fix (c # cs) =
     (if 6 \<le> length (c # cs) \<and> take 5 (c # cs) = '' tar '' \<and> is_word_char ((c # cs) ! 5)
      then take 6 (c # cs) # findall_tar_fix (drop 6 (c # cs))
      else findall_tar_fix cs)"
  by pat_completeness auto

termination
  by (relation "measure length") auto

definition special_command_normalization :: "string \<Rightarrow> string" where
  "special_command_normalization c =
     (if startswith c ''tar'' then
        (let c1 = '' '' @ c in
         py_strip (foldl (\<lambda>acc w. py_replace w (py_replace ''tar '' ''tar -'' w) acc)
                         c1 (findall_tar_fix c1)))
      else c)"

text \<open>
  \<open>normalize_ast\<close>. The parser \<open>bparser.parse\<close> is outside the sources and is a
  parameter: it returns the list of root nodes or raises. \<open>cat\<close> carries the
  catalogue; its \<open>cmd\<close> and \<open>normalize_digits\<close> fields are set here. The result is
  \<open>None\<close>, or the store with the address of the root node.
\<close>

definition normalize_ast ::
  "env \<Rightarrow> (string \<Rightarrow> exn + raw list) \<Rightarrow> string \<Rightarrow> bool \<Rightarrow> bool \<Rightarrow> exn + (store \<times> nat) option" where
  "normalize_ast cat parse c0 norm_digits recover_quot =
     (let c1 = py_strip (py_replace [CHR 0x0A] '' '' c0);
          c2 = special_command_normalization c1
      in if c2 = [] then Inr None
         else (case parse c2 of
                 Inl ex \<Rightarrow>
                   if ex \<in> {MatchedPairError, ParsingError, NotImplementedError,
                             IndexError, AttributeError}
                   then Inr None else Inl ex
               | Inr tree \<Rightarrow>
                   (let (h0, root) = Node [] ''root'' [] in
                    case normalize_first (cat\<lparr>cmd := c2, normalize_digits := norm_digits\<rparr>)
                           tree (Some root) h0 of
                      Inl (ValueError msg) \<Rightarrow> Inr None
                    | Inl ex \<Rightarrow> Inl ex
                    | Inr h \<Rightarrow> Inr (Some (h, root)))))"

section \<open>The serializer\<close>

text \<open>
  A tree as a value: what \<open>to_list\<close> reads of a node is its kind, its value and its
  children in order. \<open>repr h a t\<close> says that the object at address \<open>a\<close> of the store
  \<open>h\<close>, followed through the \<open>children\<close> lists, is the tree \<open>t\<close>.
\<close>

datatype ntree = NTree (tkind: string) (tvalue: string) (tchildren: "ntree list")

fun repr :: "store \<Rightarrow> nat \<Rightarrow> ntree \<Rightarrow> bool"
  and repr_list :: "store \<Rightarrow> nat list \<Rightarrow> ntree list \<Rightarrow> bool"
where
  "repr h a (NTree k v ts) =
     (a < length h \<and> kind (h ! a) = k \<and> nvalue (h ! a) = v \<and> repr_list h (children (h ! a)) ts)"
| "repr_list h [] [] = True"
| "repr_list h (a # as) (t # ts) = (repr h a t \<and> repr_list h as ts)"
| "repr_list h [] (t # ts) = False"
| "repr_list h (a # as) [] = False"

definition upper_char :: "char \<Rightarrow> char" where
  "upper_char c =
     (let n = (of_char c :: nat) in if 97 \<le> n \<and> n \<le> 122 then char_of (n - 32) else c)"

definition lower_char :: "char \<Rightarrow> char" where
  "lower_char c =
     (let n = (of_char c :: nat) in if 65 \<le> n \<and> n \<le> 90 then char_of (n + 32) else c)"

definition upper :: "string \<Rightarrow> string" where
  "upper s = map upper_char s"

definition lower :: "string \<Rightarrow> string" where
  "lower s = map lower_char s"

definition symbol :: "string \<Rightarrow> string \<Rightarrow> string" where
  \<comment> \<open>the property \<open>Node.symbol\<close>\<close>
  "symbol k v = upper k @ ''_'' @ v"

fun to_list :: "ntree \<Rightarrow> string \<Rightarrow> string list \<Rightarrow> string list"
  and to_list_children :: "ntree list \<Rightarrow> string \<Rightarrow> string list \<Rightarrow> string list"
where
  "to_list (NTree k v ts) order acc =
     (if order = ''dfs''
      then to_list_children ts order (acc @ [symbol k v]) @ [''<NO_EXPAND>'']
      else acc)"
| "to_list_children [] order acc = acc"
| "to_list_children (t # ts) order acc = to_list_children ts order (to_list t order acc)"

definition split_symbol :: "string \<Rightarrow> exn + string \<times> string" where
  \<comment> \<open>\<^verbatim>\<open>kind, value = symbol.split('_', 1)\<close>: unpacking fails without an underscore\<close>
  "split_symbol s =
     (if CHR ''_'' \<in> set s
      then Inr (takeWhile (\<lambda>c. c \<noteq> CHR ''_'') s, tl (dropWhile (\<lambda>c. c \<noteq> CHR ''_'') s))
      else Inl (ValueError ''need more than 1 value to unpack''))"

fun list_to_tree_loop :: "string list \<Rightarrow> store \<Rightarrow> nat option \<Rightarrow> exn + store" where
  \<comment> \<open>the loop over \<open>list[1:]\<close>, with the store and \<open>current\<close>\<close>
  "list_to_tree_loop [] h current = Inr h"
| "list_to_tree_loop (smb # rest) h current =
     (case current of
        None \<Rightarrow> Inr h
      | Some c \<Rightarrow>
          if smb = ''<NO_EXPAND>'' then list_to_tree_loop rest h (parent (h ! c))
          else
            bnd (split_symbol smb) (\<lambda>(k, v).
              let (h1, n) = Node h (lower k) v in
              bnd (attach_to_tree h1 n (Some c)) (\<lambda>h2.
                list_to_tree_loop rest h2 (Some n))))"

definition list_to_tree :: "string list \<Rightarrow> string \<Rightarrow> exn + store \<times> nat" where
  "list_to_tree l order =
     (let (h0, root) = Node [] ''root'' ''root'' in
      if order = ''dfs''
      then bnd (list_to_tree_loop (drop 1 l) h0 (Some root)) (\<lambda>h. Inr (h, root))
      else Inl NotImplementedError)"

section \<open>Digit folding\<close>




section \<open>Sample inputs\<close>

text \<open>
  A small catalogue and raw trees as the parser builds them, for evaluating the
  definitions on concrete commands. \<open>word w p\<close> is an unquoted word token at offset
  \<open>p\<close>; \<open>quoted w p\<close> is the token of a word written between quotes at offset \<open>p\<close>.
\<close>

definition sample_catalogue :: env where
  "sample_catalogue =
     \<lparr>cmd = [], normalize_digits = False,
      is_headcommand = (\<lambda>w. w \<in> {''find'', ''ls'', ''echo'', ''rm''}),
      is_option = (\<lambda>w. w \<noteq> [] \<and> hd w = CHR ''-''),
      digit_sub = (\<lambda>w. w)\<rparr>"

definition word :: "string \<Rightarrow> int \<Rightarrow> raw" where
  "word w p = Raw ''word'' w (Some []) None (p, p + int (length w))"

definition quoted :: "string \<Rightarrow> int \<Rightarrow> raw" where
  "quoted w p = Raw ''word'' w (Some []) None (p, p + int (length w) + 2)"

definition command :: "raw list \<Rightarrow> raw" where
  "command ps = Raw ''command'' [] (Some ps) None (0, 0)"

definition start_state :: "store \<Rightarrow> nat option \<Rightarrow> cstate" where
  \<comment> \<open>the local variables of \<open>normalize_command\<close> when its loop starts\<close>
  "start_state h current =
     \<lparr>st_store = h, attach_point = current, END_OF_OPTIONS = False,
      END_OF_COMMAND = False, unary_logic_ops = [], binary_logic_ops = []\<rparr>"

definition yields :: "exn + (store \<times> nat) option \<Rightarrow> ntree \<Rightarrow> bool" where
  \<comment> \<open>the call returned a root node, and the tree under it is \<open>t\<close>\<close>
  "yields r t = (case r of Inr (Some (h, a)) \<Rightarrow> repr h a t | _ \<Rightarrow> False)"

definition after_find :: cstate where
  "after_find =
     \<lparr>st_store =
        [\<lparr>parent = None, lsb = None, rsb = None, kind = ''root'', nvalue = [], children = [1]\<rparr>,
         \<lparr>parent = Some 0, lsb = None, rsb = None, kind = ''headcommand'', nvalue = ''find'',
            children = []\<rparr>],
      attach_point = Some 1, END_OF_OPTIONS = False, END_OF_COMMAND = False,
      unary_logic_ops = [], binary_logic_ops = []\<rparr>"

definition unsupported_kinds :: "string set" where
  \<comment> \<open>the kinds that the last branches of \<open>normalize\<close> name\<close>
  "unsupported_kinds = {''operator'', ''parameter'', ''redirect'', ''for'', ''if'', ''while'',
     ''until'', ''assignment'', ''function'', ''tilde'', ''heredoc''}"

definition root_store :: store where
  \<comment> \<open>the store holding only \<open>Node(kind="root")\<close>, at address 0\<close>
  "root_store = fst (Node [] ''root'' [])"

definition assignment_command :: raw where
  \<comment> \<open>the command \<open>a=1 ls\<close>: an assignment token, then a word\<close>
  "assignment_command = command [Raw ''assignment'' ''a=1'' (Some []) None (0, 3), word ''ls'' 4]"

definition list_of_two :: raw where
  \<comment> \<open>a command followed by an operator, as for \<open>ls;\<close>\<close>
  "list_of_two = Raw ''list'' [] (Some [command [word ''ls'' 0],
                    Raw ''operator'' [] None None (2, 3)]) None (0, 3)"

definition two_nots :: cstate where
  \<comment> \<open>the state after the walk over \<open>find -not -name a -not\<close>\<close>
  "two_nots =
     \<lparr>st_store =
        [\<lparr>parent = None, lsb = None, rsb = None, kind = ''root'', nvalue = [], children = [1]\<rparr>,
         \<lparr>parent = Some 0, lsb = None, rsb = None, kind = ''headcommand'', nvalue = ''find'',
            children = [2, 3, 5]\<rparr>,
         \<lparr>parent = Some 1, lsb = None, rsb = Some 3, kind = ''unarylogicop'', nvalue = ''-not'',
            children = []\<rparr>,
         \<lparr>parent = Some 1, lsb = Some 2, rsb = Some 5, kind = ''flag'', nvalue = ''-name'',
            children = [4]\<rparr>,
         \<lparr>parent = Some 3, lsb = None, rsb = None, kind = ''argument'', nvalue = ''a'',
            children = []\<rparr>,
         \<lparr>parent = Some 1, lsb = Some 3, rsb = None, kind = ''unarylogicop'', nvalue = ''-not'',
            children = []\<rparr>],
      attach_point = Some 1, END_OF_OPTIONS = False, END_OF_COMMAND = False,
      unary_logic_ops = [2, 5], binary_logic_ops = []\<rparr>"

definition two_nots_folded :: store where
  \<comment> \<open>the store of \<open>two_nots\<close> once the first \<open>-not\<close> is folded\<close>
  "two_nots_folded =
     [\<lparr>parent = None, lsb = None, rsb = None, kind = ''root'', nvalue = [], children = [1]\<rparr>,
      \<lparr>parent = Some 0, lsb = None, rsb = None, kind = ''headcommand'', nvalue = ''find'',
         children = [2, 5]\<rparr>,
      \<lparr>parent = Some 1, lsb = None, rsb = Some 5, kind = ''unarylogicop'', nvalue = ''-not'',
         children = [3]\<rparr>,
      \<lparr>parent = Some 2, lsb = None, rsb = None, kind = ''flag'', nvalue = ''-name'',
         children = [4]\<rparr>,
      \<lparr>parent = Some 3, lsb = None, rsb = None, kind = ''argument'', nvalue = ''a'',
         children = []\<rparr>,
      \<lparr>parent = Some 1, lsb = Some 2, rsb = None, kind = ''unarylogicop'', nvalue = ''-not'',
         children = []\<rparr>]"

definition find_or :: cstate where
  \<comment> \<open>the state after the walk over \<open>find . -name a -or -name b\<close>\<close>
  "find_or =
     \<lparr>st_store =
        [\<lparr>parent = None, lsb = None, rsb = None, kind = ''root'', nvalue = [], children = [1]\<rparr>,
         \<lparr>parent = Some 0, lsb = None, rsb = None, kind = ''headcommand'', nvalue = ''find'',
            children = [2, 3, 5, 6]\<rparr>,
         \<lparr>parent = Some 1, lsb = None, rsb = Some 3, kind = ''argument'', nvalue = ''.'',
            children = []\<rparr>,
         \<lparr>parent = Some 1, lsb = Some 2, rsb = Some 5, kind = ''flag'', nvalue = ''-name'',
            children = [4]\<rparr>,
         \<lparr>parent = Some 3, lsb = None, rsb = None, kind = ''argument'', nvalue = ''a'',
            children = []\<rparr>,
         \<lparr>parent = Some 1, lsb = Some 3, rsb = Some 6, kind = ''binarylogicop'', nvalue = ''-or'',
            children = []\<rparr>,
         \<lparr>parent = Some 1, lsb = Some 5, rsb = None, kind = ''flag'', nvalue = ''-name'',
            children = [7]\<rparr>,
         \<lparr>parent = Some 6, lsb = None, rsb = None, kind = ''argument'', nvalue = ''b'',
            children = []\<rparr>],
      attach_point = Some 6, END_OF_OPTIONS = False, END_OF_COMMAND = False,
      unary_logic_ops = [], binary_logic_ops = [5]\<rparr>"





definition find_or_bang :: cstate where
  \<comment> \<open>the state after the walk over \<open>find . -name a -or -name b !\<close>\<close>
  "find_or_bang =
     \<lparr>st_store =
        [\<lparr>parent = None, lsb = None, rsb = None, kind = ''root'', nvalue = [], children = [1]\<rparr>,
         \<lparr>parent = Some 0, lsb = None, rsb = None, kind = ''headcommand'', nvalue = ''find'',
            children = [2, 3, 5, 6, 8]\<rparr>,
         \<lparr>parent = Some 1, lsb = None, rsb = Some 3, kind = ''argument'', nvalue = ''.'',
            children = []\<rparr>,
         \<lparr>parent = Some 1, lsb = Some 2, rsb = Some 5, kind = ''flag'', nvalue = ''-name'',
            children = [4]\<rparr>,
         \<lparr>parent = Some 3, lsb = None, rsb = None, kind = ''argument'', nvalue = ''a'',
            children = []\<rparr>,
         \<lparr>parent = Some 1, lsb = Some 3, rsb = Some 6, kind = ''binarylogicop'', nvalue = ''-or'',
            children = []\<rparr>,
         \<lparr>parent = Some 1, lsb = Some 5, rsb = Some 8, kind = ''flag'', nvalue = ''-name'',
            children = [7]\<rparr>,
         \<lparr>parent = Some 6, lsb = None, rsb = None, kind = ''argument'', nvalue = ''b'',
            children = []\<rparr>,
         \<lparr>parent = Some 1, lsb = Some 6, rsb = None, kind = ''unarylogicop'', nvalue = ''!'',
            children = []\<rparr>],
      attach_point = Some 1, END_OF_OPTIONS = False, END_OF_COMMAND = False,
      unary_logic_ops = [8], binary_logic_ops = [5]\<rparr>"

section \<open>Notions for the round trip\<close>

definition kind_ok :: "string \<Rightarrow> bool" where
  \<comment> \<open>a kind that \<open>list_to_tree\<close> reads back from its symbol: the upper-case form has no
      underscore, is not the head of the end marker, and lower-casing undoes it\<close>
  "kind_ok k = (CHR ''_'' \<notin> set (upper k) \<and> lower (upper k) = k \<and> upper k \<noteq> ''<NO'')"

fun kinds_ok :: "ntree \<Rightarrow> bool"
  and kinds_ok_list :: "ntree list \<Rightarrow> bool"
where
  "kinds_ok (NTree k v ts) = (kind_ok k \<and> kinds_ok_list ts)"
| "kinds_ok_list [] = True"
| "kinds_ok_list (t # ts) = (kinds_ok t \<and> kinds_ok_list ts)"

definition builder_kinds :: "string list" where
  \<comment> \<open>the kinds of the nodes that \<open>normalize_ast\<close> makes\<close>
  "builder_kinds = [''root'', ''pipeline'', ''commandsubstitution'', ''processsubstitution'',
     ''unarylogicop'', ''binarylogicop'', ''headcommand'', ''flag'', ''argument'', []]"

definition wf_store :: "store \<Rightarrow> bool" where
  \<comment> \<open>every child reference is an object of the store\<close>
  "wf_store h = (\<forall>a < length h. \<forall>c \<in> set (children (h ! a)). c < length h)"

definition frame :: "store \<Rightarrow> store \<Rightarrow> nat \<Rightarrow> bool" where
  \<comment> \<open>\<open>h'\<close> extends \<open>h\<close>; of the old objects only \<open>c\<close> may have other children\<close>
  "frame h h' c =
     (length h \<le> length h'
      \<and> (\<forall>a < length h. kind (h' ! a) = kind (h ! a) \<and> nvalue (h' ! a) = nvalue (h ! a)
             \<and> parent (h' ! a) = parent (h ! a)
             \<and> (a \<noteq> c \<longrightarrow> children (h' ! a) = children (h ! a))))"

definition closed_between :: "nat \<Rightarrow> nat \<Rightarrow> store \<Rightarrow> bool" where
  \<comment> \<open>the objects at the addresses from \<open>lo\<close> up to \<open>hi\<close> have their children among themselves\<close>
  "closed_between lo hi h =
     (\<forall>a. lo \<le> a \<and> a < hi \<longrightarrow> (\<forall>c \<in> set (children (h ! a)). lo \<le> c \<and> c < hi))"

definition rebuilds :: "exn + store \<times> nat \<Rightarrow> ntree \<Rightarrow> bool" where
  \<comment> \<open>\<open>list_to_tree\<close> returned a root, and the tree under it is \<open>t\<close>\<close>
  "rebuilds r t = (case r of Inr (h, a) \<Rightarrow> repr h a t | Inl ex \<Rightarrow> False)"

definition ls_tree :: ntree where
  \<comment> \<open>the normalized tree of the command \<open>ls\<close>\<close>
  "ls_tree = NTree ''root'' [] [NTree ''headcommand'' ''ls'' []]"

definition reads_forest ::
  "store \<Rightarrow> nat \<Rightarrow> string list \<Rightarrow> store \<Rightarrow> nat list \<Rightarrow> ntree list \<Rightarrow> bool" where
  \<comment> \<open>reading the symbols \<open>syms\<close> with the cursor at \<open>c\<close> leads from the store \<open>h\<close> to \<open>h'\<close>
      with the cursor at \<open>c\<close> again, and has appended to \<open>c\<close> the new children \<open>as\<close>, which
      stand for the trees \<open>ts\<close>\<close>
  "reads_forest h c syms h' as ts =
     ((\<forall>rest. list_to_tree_loop (syms @ rest) h (Some c) = list_to_tree_loop rest h' (Some c))
      \<and> wf_store h' \<and> frame h h' c
      \<and> children (h' ! c) = children (h ! c) @ as
      \<and> repr_list h' as ts
      \<and> (\<forall>a \<in> set as. length h \<le> a \<and> a < length h')
      \<and> closed_between (length h) (length h') h')"

section \<open>Sibling lists\<close>

text \<open>
  What \<open>attach_to_tree\<close> keeps of the children of a node: \<open>linked h p prev cs nxt\<close> says
  that the nodes \<open>cs\<close> are objects of the store with parent \<open>p\<close>, each with the one
  before it as \<open>lsb\<close> and the one after it as \<open>rsb\<close>, \<open>prev\<close> before the first and
  \<open>nxt\<close> after the last. \<open>siblings_ok h p\<close> says so of the whole list of children of
  \<open>p\<close>, in which no node occurs twice and \<open>p\<close> itself does not occur.
\<close>

fun linked :: "store \<Rightarrow> nat \<Rightarrow> nat option \<Rightarrow> nat list \<Rightarrow> nat option \<Rightarrow> bool" where
  "linked h p prev [] nxt = True"
| "linked h p prev (c # cs) nxt =
     (c < length h \<and> parent (h ! c) = Some p \<and> lsb (h ! c) = prev
      \<and> rsb (h ! c) = (case cs of [] \<Rightarrow> nxt | d # ds \<Rightarrow> Some d)
      \<and> linked h p (Some c) cs nxt)"

definition siblings_ok :: "store \<Rightarrow> nat \<Rightarrow> bool" where
  "siblings_ok h p =
     (p < length h \<and> distinct (children (h ! p)) \<and> p \<notin> set (children (h ! p))
      \<and> linked h p None (children (h ! p)) None)"

section \<open>Basic facts\<close>

lemma bnd_Inr [simp]: "bnd (Inr x) f = f x"
  by (simp add: bnd_def)

lemma bnd_Inl [simp]: "bnd (Inl err) f = Inl err"
  by (simp add: bnd_def)

lemma attach_new_node:
  assumes "p < length h" and "\<forall>c \<in> set (children (h ! p)). c < length h"
  shows "\<exists>h'. attach_to_tree (fst (Node h k v)) (length h) (Some p) = Inr h'
           \<and> length h' = Suc (length h)
           \<and> kind (h' ! length h) = k \<and> nvalue (h' ! length h) = v
           \<and> parent (h' ! length h) = Some p \<and> children (h' ! length h) = []
           \<and> children (h' ! p) = children (h ! p) @ [length h]
           \<and> (\<forall>a < length h. kind (h' ! a) = kind (h ! a) \<and> nvalue (h' ! a) = nvalue (h ! a)
                  \<and> parent (h' ! a) = parent (h ! a)
                  \<and> (a \<noteq> p \<longrightarrow> children (h' ! a) = children (h ! a)))"
proof (cases "children (h ! p) = []")
  case True
  then show ?thesis
    using assms unfolding Node_def attach_to_tree_def getRightChild_def addChild_def deref_def
    by (simp add: Let_def nth_append nth_list_update)
next
  case False
  then have l: "last (children (h ! p)) < length h"
    using assms(2) by simp
  from False have "Suc 0 \<le> length (children (h ! p))"
    by (cases "children (h ! p)") simp_all
  then show ?thesis
    using assms(1) l unfolding Node_def attach_to_tree_def getRightChild_def addChild_def deref_def
    by (simp add: Let_def nth_append nth_list_update)
qed

section \<open>Quote recovery\<close>








section \<open>Quoted head commands\<close>

text \<open>
  Claim C10. A word token that the catalogue knows as a head command and whose span
  is two characters longer than the word is dropped: the chain of tests returns the
  state as it was (same store, so no node is made; same attach point), whatever
  \<open>normalize\<close> would do with the token. One turn of the loop is then only the step
  that closes a utility after \<open>;\<close>; without a pending \<open>;\<close> the turn changes nothing.
  The words tested earlier in the chain (\<open>--\<close>, \<open>;\<close> and the logic operators) are
  set aside.
\<close>

theorem quoted_head_command_dropped:
  assumes "rkind child = ''word''"
    and "rword child \<notin> {''--'', '';''} \<union> unary_logic_operators \<union> binary_logic_operators"
    and "is_headcommand e (rword child)"
    and "with_quotation child"
  shows "dispatch_token e norm child st = Inr st
       \<and> command_token e norm child st = end_of_command_step st
       \<and> (\<not> END_OF_COMMAND st \<longrightarrow> command_token e norm child st = Inr st)"
proof -
  have d: "dispatch_token e norm child s = Inr s" for s
    using assms unfolding dispatch_token_def by simp
  have "command_token e norm child st = end_of_command_step st"
    unfolding command_token_def
    by (cases "end_of_command_step st") (simp_all add: d)
  moreover have "\<not> END_OF_COMMAND st \<Longrightarrow> end_of_command_step st = Inr st"
    by (simp add: end_of_command_step_def)
  ultimately show ?thesis using d by simp
qed

theorem quoted_head_command_dropped_witness:
  "rkind (quoted ''ls'' 5) = ''word''
   \<and> is_headcommand sample_catalogue (rword (quoted ''ls'' 5))
   \<and> with_quotation (quoted ''ls'' 5)
   \<and> command_token sample_catalogue (normalize sample_catalogue (quoted ''ls'' 5))
        (quoted ''ls'' 5) (start_state (fst (Node [] ''root'' [])) (Some 0))
      = Inr (start_state (fst (Node [] ''root'' [])) (Some 0))"
proof -
  have a: "rkind (quoted ''ls'' 5) = ''word''"
    by (simp add: quoted_def)
  have b: "rword (quoted ''ls'' 5)
             \<notin> {''--'', '';''} \<union> unary_logic_operators \<union> binary_logic_operators"
    by (simp add: quoted_def unary_logic_operators_def binary_logic_operators_def)
  have c: "is_headcommand sample_catalogue (rword (quoted ''ls'' 5))"
    by (simp add: quoted_def sample_catalogue_def)
  have d: "with_quotation (quoted ''ls'' 5)"
    by (simp add: quoted_def with_quotation_def)
  have e: "\<not> END_OF_COMMAND (start_state (fst (Node [] ''root'' [])) (Some 0))"
    by (simp add: start_state_def)
  have "command_token sample_catalogue (normalize sample_catalogue (quoted ''ls'' 5))
          (quoted ''ls'' 5) (start_state (fst (Node [] ''root'' [])) (Some 0))
        = Inr (start_state (fst (Node [] ''root'' [])) (Some 0))"
    using quoted_head_command_dropped [OF a b c d,
        of "normalize sample_catalogue (quoted ''ls'' 5)"
           "start_state (fst (Node [] ''root'' [])) (Some 0)"] e
    by blast
  with a c d show ?thesis by blast
qed

section \<open>Unary logic operators in the walk\<close>

lemma unary_classify:
  "w \<in> unary_logic_operators \<Longrightarrow>
   is_unary_logic_op h w (Some p) \<longleftrightarrow>
     (w = ''-not'' \<or> (w = ''!'' \<and> kind (h ! p) = ''headcommand'' \<and> nvalue (h ! p) = ''find''))"
  by (auto simp: is_unary_logic_op_def unary_logic_operators_def)

lemma after_find_walk:
  "normalize_command_parts sample_catalogue [word ''find'' 0]
     (start_state (fst (Node [] ''root'' [])) (Some 0)) = Inr after_find"
  by code_simp

text \<open>
  Claim C7, as the code has it. A token \<open>!\<close> or \<open>-not\<close> met where the flag attach
  point is the node \<open>p\<close> is a true operator exactly when it is \<open>-not\<close>, or it is \<open>!\<close>
  and \<open>p\<close> is a head command with value \<open>find\<close>. A true operator becomes a new
  \<open>unarylogicop\<close> node without children, attached as the last child of \<open>p\<close> and
  appended to the recorded operators; the attach point afterwards is \<open>p\<close>, the node
  the operator hangs under, not the operator. Any other such token goes through
  \<open>attach_option\<close>, as an option does.
\<close>

theorem unary_operator_token:
  assumes "rkind child = ''word''" and "rword child = w" and "w \<in> unary_logic_operators"
    and "find_flag_attach_point (st_store st) (attach_point st) = Inr (Some p)"
    and "p < length (st_store st)"
    and "\<forall>c \<in> set (children (st_store st ! p)). c < length (st_store st)"
  shows "(is_unary_logic_op (st_store st) w (Some p) \<longleftrightarrow>
            (w = ''-not'' \<or> (w = ''!'' \<and> kind (st_store st ! p) = ''headcommand''
                                     \<and> nvalue (st_store st ! p) = ''find'')))
       \<and> (is_unary_logic_op (st_store st) w (Some p) \<longrightarrow>
            (\<exists>h'. dispatch_token e norm child st
                    = Inr (st\<lparr>st_store := h', attach_point := Some p,
                              unary_logic_ops := unary_logic_ops st @ [length (st_store st)]\<rparr>)
                 \<and> length h' = Suc (length (st_store st))
                 \<and> kind (h' ! length (st_store st)) = ''unarylogicop''
                 \<and> nvalue (h' ! length (st_store st)) = w
                 \<and> parent (h' ! length (st_store st)) = Some p
                 \<and> children (h' ! length (st_store st)) = []
                 \<and> children (h' ! p) = children (st_store st ! p) @ [length (st_store st)]))
       \<and> (\<not> is_unary_logic_op (st_store st) w (Some p) \<longrightarrow>
            dispatch_token e norm child st
              = bnd (attach_option norm (st_store st) (Some p))
                    (\<lambda>(h2, ap2). Inr (st\<lparr>st_store := h2, attach_point := ap2\<rparr>)))"
proof -
  have w: "w \<noteq> ''--''" "w \<noteq> '';''"
    using assms(3) by (auto simp: unary_logic_operators_def)
  have 1: "is_unary_logic_op (st_store st) w (Some p) \<longleftrightarrow>
            (w = ''-not'' \<or> (w = ''!'' \<and> kind (st_store st ! p) = ''headcommand''
                                     \<and> nvalue (st_store st ! p) = ''find''))"
    using assms(3) by (rule unary_classify)
  have 3: "\<not> is_unary_logic_op (st_store st) w (Some p) \<Longrightarrow>
            dispatch_token e norm child st
              = bnd (attach_option norm (st_store st) (Some p))
                    (\<lambda>(h2, ap2). Inr (st\<lparr>st_store := h2, attach_point := ap2\<rparr>))"
    using assms w unfolding dispatch_token_def by simp
  have 2: "is_unary_logic_op (st_store st) w (Some p) \<Longrightarrow>
            (\<exists>h'. dispatch_token e norm child st
                    = Inr (st\<lparr>st_store := h', attach_point := Some p,
                              unary_logic_ops := unary_logic_ops st @ [length (st_store st)]\<rparr>)
                 \<and> length h' = Suc (length (st_store st))
                 \<and> kind (h' ! length (st_store st)) = ''unarylogicop''
                 \<and> nvalue (h' ! length (st_store st)) = w
                 \<and> parent (h' ! length (st_store st)) = Some p
                 \<and> children (h' ! length (st_store st)) = []
                 \<and> children (h' ! p) = children (st_store st ! p) @ [length (st_store st)])"
  proof -
    assume u: "is_unary_logic_op (st_store st) w (Some p)"
    obtain h' where h': "attach_to_tree (fst (Node (st_store st) ''unarylogicop'' w))
                           (length (st_store st)) (Some p) = Inr h'"
        "length h' = Suc (length (st_store st))"
        "kind (h' ! length (st_store st)) = ''unarylogicop''"
        "nvalue (h' ! length (st_store st)) = w"
        "parent (h' ! length (st_store st)) = Some p"
        "children (h' ! length (st_store st)) = []"
        "children (h' ! p) = children (st_store st ! p) @ [length (st_store st)]"
      using attach_new_node [OF assms(5) assms(6), of "''unarylogicop''" w] by blast
    have "dispatch_token e norm child st
            = Inr (st\<lparr>st_store := h', attach_point := Some p,
                      unary_logic_ops := unary_logic_ops st @ [length (st_store st)]\<rparr>)"
      using assms(1-4) w u h'(1)
      unfolding dispatch_token_def UnaryLogicOpNode_def
      by (simp add: Let_def Node_def)
    with h'(2-7) show ?thesis by blast
  qed
  show ?thesis using 1 2 3 by blast
qed


theorem unary_operator_token_witness:
  "rkind (word ''-not'' 5) = ''word'' \<and> ''-not'' \<in> unary_logic_operators
   \<and> find_flag_attach_point (st_store after_find) (attach_point after_find) = Inr (Some 1)
   \<and> is_unary_logic_op (st_store after_find) ''-not'' (Some 1)
   \<and> (\<exists>h'. dispatch_token sample_catalogue (normalize sample_catalogue (word ''-not'' 5))
               (word ''-not'' 5) after_find
             = Inr (after_find\<lparr>st_store := h', attach_point := Some 1,
                               unary_logic_ops := unary_logic_ops after_find @ [2]\<rparr>)
           \<and> kind (h' ! 2) = ''unarylogicop'' \<and> parent (h' ! 2) = Some 1)"
proof -
  have a: "rkind (word ''-not'' 5) = ''word''" "rword (word ''-not'' 5) = ''-not''"
    by (simp_all add: word_def)
  have b: "''-not'' \<in> unary_logic_operators"
    by (simp add: unary_logic_operators_def)
  have c: "find_flag_attach_point (st_store after_find) (attach_point after_find) = Inr (Some 1)"
    by (simp add: find_flag_attach_point_def after_find_def deref_def)
  have d: "1 < length (st_store after_find)"
    by (simp add: after_find_def)
  have e: "\<forall>c \<in> set (children (st_store after_find ! 1)). c < length (st_store after_find)"
    by (simp add: after_find_def)
  have f: "is_unary_logic_op (st_store after_find) ''-not'' (Some 1)"
    by (simp add: is_unary_logic_op_def b)
  have g: "length (st_store after_find) = 2"
    by (simp add: after_find_def)
  show ?thesis
    using unary_operator_token [OF a(1) a(2) b c d e,
        of sample_catalogue "normalize sample_catalogue (word ''-not'' 5)"] a(1) b c f
    unfolding g by blast
qed


text \<open>
  Claim C7 as stated fails in its last part: after \<open>find -not\<close> the recorded operator is
  node 2 and the attach point is node 1, the head command.
\<close>

theorem unary_operator_attach_point_counterexample:
  "normalize_command_parts sample_catalogue [word ''-not'' 5] after_find
   = Inr \<lparr>st_store =
        [\<lparr>parent = None, lsb = None, rsb = None, kind = ''root'', nvalue = [], children = [1]\<rparr>,
         \<lparr>parent = Some 0, lsb = None, rsb = None, kind = ''headcommand'', nvalue = ''find'',
            children = [2]\<rparr>,
         \<lparr>parent = Some 1, lsb = None, rsb = None, kind = ''unarylogicop'', nvalue = ''-not'',
            children = []\<rparr>],
      attach_point = Some 1, END_OF_OPTIONS = False, END_OF_COMMAND = False,
      unary_logic_ops = [2], binary_logic_ops = []\<rparr>"
  by code_simp

section \<open>Lists and unsupported kinds\<close>

lemma normalize_list_kind:
  assumes "rkind nd = ''list''" and "rparts nd = Some ps"
  shows "normalize e nd current arg_type h =
           (if length ps > 2 then Inl TypeError
            else if ps = [] then Inl IndexError
            else normalize e (hd ps) current [] h)"
  using assms
  by (cases ps) (simp_all add: normalize_node_def parts_list_def deref_def)

text \<open>
  Claim C5, as the code has it. The guard of the \<open>list\<close> branch is
  \<open>len(node.parts) > 2\<close>: a list of one or of two parts is passed through to its first
  part (a second part is not looked at), and a list of any other length fails.
\<close>

theorem list_node_passes_first_part:
  assumes "rkind nd = ''list''" and "rparts nd = Some ps"
  shows "(length ps = 1 \<or> length ps = 2 \<longrightarrow>
            normalize e nd current arg_type h = normalize e (hd ps) current [] h)
       \<and> (length ps \<noteq> 1 \<and> length ps \<noteq> 2 \<longrightarrow> isl (normalize e nd current arg_type h))"
proof -
  have "length ps \<noteq> 1 \<and> length ps \<noteq> 2 \<Longrightarrow> length ps > 2 \<or> length ps = 0"
    by arith
  then show ?thesis
    unfolding normalize_list_kind [OF assms] by auto
qed

theorem list_node_passes_first_part_witness:
  "rkind list_of_two = ''list''
   \<and> rparts list_of_two = Some [command [word ''ls'' 0], Raw ''operator'' [] None None (2, 3)]
   \<and> normalize sample_catalogue list_of_two (Some 0) [] root_store
       = normalize sample_catalogue (command [word ''ls'' 0]) (Some 0) [] root_store"
proof -
  have a: "rkind list_of_two = ''list''"
    by (simp add: list_of_two_def)
  have b: "rparts list_of_two
             = Some [command [word ''ls'' 0], Raw ''operator'' [] None None (2, 3)]"
    by (simp add: list_of_two_def)
  show ?thesis
    using list_node_passes_first_part [OF a b, of sample_catalogue "Some 0" "[]" root_store] a b
    by simp
qed

text \<open>
  Claim C5 as stated fails for a list of two parts: normalization succeeds with the
  tree of the first part.
\<close>

theorem list_of_two_counterexample:
  "normalize sample_catalogue list_of_two (Some 0) [] root_store
   = Inr [\<lparr>parent = None, lsb = None, rsb = None, kind = ''root'', nvalue = [],
            children = [1]\<rparr>,
          \<lparr>parent = Some 0, lsb = None, rsb = None, kind = ''headcommand'', nvalue = ''ls'',
            children = []\<rparr>]"
  by code_simp

text \<open>
  The branches for the unsupported kinds. The test \<open>hasattr(node, 'parts')\<close> comes
  before them: a node of such a kind without a \<open>parts\<close> attribute fails at once with
  the ValueError that names the kind (\<open>parameters\<close> for a parameter); one that has
  \<open>parts\<close> never reaches its branch, each of its parts is normalized under the same
  node instead.
\<close>

lemma unsupported_kind_branches:
  assumes "rkind nd \<in> unsupported_kinds"
  shows "(rparts nd = None \<longrightarrow>
            normalize e nd current arg_type h =
              Inl (ValueError (''Unsupported: '' @
                     (if rkind nd = ''parameter'' then ''parameters'' else rkind nd))))
       \<and> (\<forall>ps. rparts nd = Some ps \<longrightarrow>
            normalize e nd current arg_type h = normalize_parts e ps current h)"
  using assms unfolding unsupported_kinds_def
  by (auto simp: normalize_node_def parts_list_def)

text \<open>
  Claim C4. The claim is what the branches marked \<open>not supported\<close> are written for, and
  the code misses it for a node that carries \<open>parts\<close>. In \<open>a=1 ls\<close> the loop of
  \<open>normalize_command\<close> hands the assignment token to \<open>normalize\<close> with the argument
  type \<open>assignment\<close>, which can only be meant to reach the branch that raises
  \<open>Unsupported: assignment\<close>. The token has a \<open>parts\<close> attribute, an empty list, so
  the earlier test takes it: nothing is raised and the store is left as it was. The
  command comes back as the tree of \<open>ls\<close>, the assignment dropped without a word.
\<close>

theorem assignment_not_rejected:
  "normalize sample_catalogue (Raw ''assignment'' ''a=1'' (Some []) None (0, 3)) (Some 0)
     ''assignment'' root_store = Inr root_store
   \<and> yields
       (normalize_ast sample_catalogue (\<lambda>c. Inr [assignment_command]) ''a=1 ls'' False True)
       (NTree ''root'' [] [NTree ''headcommand'' ''ls'' []])"
  by code_simp

section \<open>Failures at the orchestration boundary\<close>




section \<open>De-linearization of malformed sequences\<close>






section \<open>A unary operator without a right sibling\<close>

lemma process_unary_logic_ops_append:
  "process_unary_logic_ops (xs @ ys) h =
     bnd (process_unary_logic_ops xs h)
         (\<lambda>(returned, h1). if returned then Inr (True, h1) else process_unary_logic_ops ys h1)"
proof (induction xs arbitrary: h)
  case Nil
  show ?case by simp
next
  case (Cons n ns)
  show ?case
  proof (cases "rsb (h ! n)")
    case None
    then show ?thesis by simp
  next
    case (Some r)
    show ?thesis
    proof (cases "fold_unary_op h n r")
      case (Inl ex)
      with Some show ?thesis by simp
    next
      case (Inr h2)
      with Some Cons.IH [of h2] show ?thesis by simp
    qed
  qed
qed

lemma two_nots_walk:
  "normalize_command_parts sample_catalogue
     [word ''find'' 0, word ''-not'' 5, word ''-name'' 10, word ''a'' 16, word ''-not'' 18]
     (start_state root_store (Some 0)) = Inr two_nots"
  by code_simp

text \<open>
  Claim C8, as the code has it. When the operators recorded before \<open>u\<close> have been
  folded and \<open>u\<close> then has no right sibling, the loop leaves through \<open>return\<close>: the
  command is returned with the store as those folds left it. \<open>u\<close> stays un-folded, and
  so do the unary operators recorded after it and all recorded binary operators:
  neither loop looks at them.
\<close>

theorem dangling_unary_operator_returns:
  assumes "unary_logic_ops st = us1 @ u # us2"
    and "process_unary_logic_ops us1 (st_store st) = Inr (False, h')"
    and "rsb (h' ! u) = None"
  shows "process_logic_operators st = Inr h'"
  using assms
  unfolding process_logic_operators_def
  by (simp add: process_unary_logic_ops_append)

theorem dangling_unary_operator_returns_witness:
  "unary_logic_ops two_nots = [2] @ 5 # []
   \<and> process_unary_logic_ops [2] (st_store two_nots) = Inr (False, two_nots_folded)
   \<and> rsb (two_nots_folded ! 5) = None
   \<and> process_logic_operators two_nots = Inr two_nots_folded"
proof -
  have a: "unary_logic_ops two_nots = [2] @ 5 # []"
    by (simp add: two_nots_def)
  have b: "process_unary_logic_ops [2] (st_store two_nots) = Inr (False, two_nots_folded)"
    by code_simp
  have c: "rsb (two_nots_folded ! 5) = None"
    by code_simp
  show ?thesis
    using dangling_unary_operator_returns [OF a b c] a b c by blast
qed

text \<open>
  Claim C8 as stated fails in its last part: in \<open>find . -name a -or -name b -not\<close> the
  trailing \<open>-not\<close> has no right sibling, and the command comes back with \<open>-or\<close> not
  folded either, although \<open>-or\<close> has both its siblings.
\<close>

theorem rest_not_folded_counterexample:
  "yields
     (normalize_ast sample_catalogue
        (\<lambda>c. Inr [command [word ''find'' 0, word ''.'' 5, word ''-name'' 7, word ''a'' 13,
                     word ''-or'' 15, word ''-name'' 19, word ''b'' 25, word ''-not'' 27]])
        ''find . -name a -or -name b -not'' False True)
     (NTree ''root'' []
        [NTree ''headcommand'' ''find''
           [NTree ''argument'' ''.'' [],
            NTree ''flag'' ''-name'' [NTree ''argument'' ''a'' []],
            NTree ''binarylogicop'' ''-or'' [],
            NTree ''flag'' ''-name'' [NTree ''argument'' ''b'' []],
            NTree ''unarylogicop'' ''-not'' []]])"
  by code_simp

section \<open>Folding a binary logic operator\<close>

lemma find_or_walk:
  "normalize_command_parts sample_catalogue
     [word ''find'' 0, word ''.'' 5, word ''-name'' 7, word ''a'' 13, word ''-or'' 15,
      word ''-name'' 19, word ''b'' 25]
     (start_state root_store (Some 0)) = Inr find_or"
  by code_simp

lemma find_or_tree:
  "yields
     (normalize_ast sample_catalogue
        (\<lambda>c. Inr [command [word ''find'' 0, word ''.'' 5, word ''-name'' 7, word ''a'' 13,
                     word ''-or'' 15, word ''-name'' 19, word ''b'' 25]])
        ''find . -name a -or -name b'' False True)
     (NTree ''root'' []
        [NTree ''headcommand'' ''find''
           [NTree ''argument'' ''.'' [],
            NTree ''binarylogicop'' ''-or''
              [NTree ''flag'' ''-name'' [NTree ''argument'' ''a'' []],
               NTree ''flag'' ''-name'' [NTree ''argument'' ''b'' []]]]])"
  by code_simp

lemma find_or_and_tree:
  "yields
     (normalize_ast sample_catalogue
        (\<lambda>c. Inr [command [word ''find'' 0, word ''.'' 5, word ''-name'' 7, word ''a'' 13,
                     word ''-or'' 15, word ''-name'' 19, word ''b'' 25, word ''-and'' 27,
                     word ''-name'' 32, word ''c'' 38]])
        ''find . -name a -or -name b -and -name c'' False True)
     (NTree ''root'' []
        [NTree ''headcommand'' ''find''
           [NTree ''argument'' ''.'' [],
            NTree ''binarylogicop'' ''-and''
              [NTree ''binarylogicop'' ''-or''
                 [NTree ''flag'' ''-name'' [NTree ''argument'' ''a'' []],
                  NTree ''flag'' ''-name'' [NTree ''argument'' ''b'' []]],
               NTree ''flag'' ''-name'' [NTree ''argument'' ''c'' []]]]])"
  by code_simp

lemma fold_binary_op_layout:
  assumes valid: "n < length h" "l < length h" "r < length h" "p < length h"
      "\<forall>c \<in> set (xs @ ys). c < length h"
    and links: "parent (h ! n) = Some p" "lsb (h ! n) = Some l" "rsb (h ! n) = Some r"
    and sibs: "children (h ! p) = xs @ [l, n, r] @ ys" "distinct (children (h ! p))"
      "p \<notin> set (children (h ! p))"
    and fresh: "children (h ! n) = []"
    and outer: "lsb (h ! l) = (if xs = [] then None else Some (last xs))"
      "rsb (h ! r) = (if ys = [] then None else Some (hd ys))"
  shows "\<exists>h'. fold_binary_op h n = Inr h'
           \<and> length h' = length h
           \<and> children (h' ! n) = [l, r]
           \<and> children (h' ! p) = xs @ [n] @ ys
           \<and> parent (h' ! l) = Some n \<and> parent (h' ! r) = Some n
           \<and> lsb (h' ! l) = None \<and> rsb (h' ! l) = Some r
           \<and> lsb (h' ! r) = Some l \<and> rsb (h' ! r) = None
           \<and> parent (h' ! n) = Some p
           \<and> lsb (h' ! n) = (if xs = [] then None else Some (last xs))
           \<and> rsb (h' ! n) = (if ys = [] then None else Some (hd ys))
           \<and> (xs \<noteq> [] \<longrightarrow> rsb (h' ! last xs) = Some n)
           \<and> (ys \<noteq> [] \<longrightarrow> lsb (h' ! hd ys) = Some n)
           \<and> (\<forall>a < length h. a \<noteq> l \<and> a \<noteq> r \<longrightarrow> parent (h' ! a) = parent (h ! a))
           \<and> (\<forall>a < length h. a \<noteq> l \<and> a \<noteq> n \<and> a \<noteq> r \<and> (ys \<noteq> [] \<longrightarrow> a \<noteq> hd ys)
                  \<longrightarrow> lsb (h' ! a) = lsb (h ! a))
           \<and> (\<forall>a < length h. a \<noteq> l \<and> a \<noteq> n \<and> a \<noteq> r \<and> (xs \<noteq> [] \<longrightarrow> a \<noteq> last xs)
                  \<longrightarrow> rsb (h' ! a) = rsb (h ! a))
           \<and> (\<forall>a < length h. a \<noteq> n \<and> a \<noteq> p \<longrightarrow> children (h' ! a) = children (h ! a))
           \<and> (\<forall>a < length h. kind (h' ! a) = kind (h ! a) \<and> nvalue (h' ! a) = nvalue (h ! a))"
proof -
  have d: "l \<noteq> n" "l \<noteq> r" "n \<noteq> r" "p \<noteq> l" "p \<noteq> n" "p \<noteq> r"
      "l \<notin> set xs" "n \<notin> set xs" "r \<notin> set xs" "l \<notin> set ys" "n \<notin> set ys" "r \<notin> set ys"
      "p \<notin> set xs" "p \<notin> set ys"
    using sibs by auto
  have lx: "xs \<noteq> [] \<Longrightarrow> last xs \<in> set xs" and hy: "ys \<noteq> [] \<Longrightarrow> hd ys \<in> set ys"
    by simp_all
  have dis: "set xs \<inter> set ys = {}"
    using sibs(1,2) by auto
  have lxhy: "last xs \<noteq> hd ys" if "xs \<noteq> []" "ys \<noteq> []"
  proof
    assume "last xs = hd ys"
    with lx [OF that(1)] hy [OF that(2)] have "hd ys \<in> set xs \<inter> set ys" by simp
    with dis show False by simp
  qed
  show ?thesis
  proof (cases "xs = []"; cases "ys = []")
    assume "xs = []" "ys = []"
    then show ?thesis
      using valid links sibs(1) fresh outer d
      unfolding fold_binary_op_def make_sibling_def removeChild_def addChild_def deref_def
      by (simp add: Let_def nth_list_update remove1_append)
  next
    assume a: "xs = []" "ys \<noteq> []"
    with hy valid(5) have v: "hd ys < length h" by simp
    from a d hy have e: "hd ys \<noteq> l" "hd ys \<noteq> n" "hd ys \<noteq> r" "hd ys \<noteq> p" by auto
    show ?thesis
      using a v e valid(1-4) links sibs(1) fresh outer d
      unfolding fold_binary_op_def make_sibling_def removeChild_def addChild_def deref_def
      by (simp add: Let_def nth_list_update remove1_append)
  next
    assume a: "xs \<noteq> []" "ys = []"
    with lx valid(5) have v: "last xs < length h" by simp
    from a d lx have e: "last xs \<noteq> l" "last xs \<noteq> n" "last xs \<noteq> r" "last xs \<noteq> p" by auto
    show ?thesis
      using a v e valid(1-4) links sibs(1) fresh outer d
      unfolding fold_binary_op_def make_sibling_def removeChild_def addChild_def deref_def
      by (simp add: Let_def nth_list_update remove1_append)
  next
    assume a: "xs \<noteq> []" "ys \<noteq> []"
    with lx hy valid(5) have v: "last xs < length h" "hd ys < length h" by simp_all
    from a d lx hy have e: "last xs \<noteq> l" "last xs \<noteq> n" "last xs \<noteq> r" "last xs \<noteq> p"
        "hd ys \<noteq> l" "hd ys \<noteq> n" "hd ys \<noteq> r" "hd ys \<noteq> p" by auto
    show ?thesis
      using a v e lxhy valid(1-4) links sibs(1) fresh outer d
      unfolding fold_binary_op_def make_sibling_def removeChild_def addChild_def deref_def
      by (simp add: Let_def nth_list_update remove1_append)
  qed
qed

lemma linked_append:
  "linked h p prev (xs @ ys) nxt
     = (linked h p prev xs (case ys of [] \<Rightarrow> nxt | d # ds \<Rightarrow> Some d)
        \<and> linked h p (if xs = [] then prev else Some (last xs)) ys nxt)"
proof (induction xs arbitrary: prev)
  case Nil
  show ?case by simp
next
  case (Cons c cs)
  have e1: "(case cs @ ys of [] \<Rightarrow> nxt | d # ds \<Rightarrow> Some d)
              = (case cs of [] \<Rightarrow> (case ys of [] \<Rightarrow> nxt | d # ds \<Rightarrow> Some d) | d # ds \<Rightarrow> Some d)"
    by (cases cs) simp_all
  have e2: "(if cs = [] then Some c else Some (last cs)) = Some (last (c # cs))"
    by simp
  have e3: "(if c # cs = [] then prev else Some (last (c # cs))) = Some (last (c # cs))"
    by simp
  have "linked h p prev ((c # cs) @ ys) nxt
          = (c < length h \<and> parent (h ! c) = Some p \<and> lsb (h ! c) = prev
             \<and> rsb (h ! c) = (case cs @ ys of [] \<Rightarrow> nxt | d # ds \<Rightarrow> Some d)
             \<and> linked h p (Some c) (cs @ ys) nxt)"
    by (simp only: append_Cons linked.simps)
  also have "\<dots> = (c < length h \<and> parent (h ! c) = Some p \<and> lsb (h ! c) = prev
             \<and> rsb (h ! c) = (case cs of [] \<Rightarrow> (case ys of [] \<Rightarrow> nxt | d # ds \<Rightarrow> Some d)
                                | d # ds \<Rightarrow> Some d)
             \<and> linked h p (Some c) cs (case ys of [] \<Rightarrow> nxt | d # ds \<Rightarrow> Some d)
             \<and> linked h p (Some (last (c # cs))) ys nxt)"
    by (simp only: e1 Cons.IH [of "Some c"] e2)
  also have "\<dots> = (linked h p prev (c # cs) (case ys of [] \<Rightarrow> nxt | d # ds \<Rightarrow> Some d)
                    \<and> linked h p (Some (last (c # cs))) ys nxt)"
    by (simp only: linked.simps conj_assoc)
  finally show ?case
    by (simp only: e3)
qed

lemma linked_valid: "linked h p prev cs nxt \<Longrightarrow> c \<in> set cs \<Longrightarrow> c < length h"
  by (induction cs arbitrary: prev) auto

lemma linked_parent: "linked h p prev cs nxt \<Longrightarrow> c \<in> set cs \<Longrightarrow> parent (h ! c) = Some p"
  by (induction cs arbitrary: prev) auto

lemma linked_cong:
  assumes "linked h p prev cs nxt" and "length h \<le> length h'"
    and "\<And>c. c \<in> set cs \<Longrightarrow> parent (h' ! c) = parent (h ! c)
              \<and> lsb (h' ! c) = lsb (h ! c) \<and> rsb (h' ! c) = rsb (h ! c)"
  shows "linked h' p prev cs nxt"
  using assms by (induction cs arbitrary: prev) auto

lemma linked_layout:
  assumes "linked h p None cs None" and "n \<in> set cs"
    and "lsb (h ! n) = Some l" and "rsb (h ! n) = Some r"
  shows "\<exists>xs ys. cs = xs @ [l, n, r] @ ys
           \<and> lsb (h ! l) = (if xs = [] then None else Some (last xs))
           \<and> rsb (h ! r) = (if ys = [] then None else Some (hd ys))"
proof -
  from assms(2) obtain us vs where cs: "cs = us @ n # vs"
    by (auto simp add: in_set_conv_decomp)
  from assms(1) have a: "linked h p None us (Some n)"
      and b: "linked h p (if us = [] then None else Some (last us)) (n # vs) None"
    unfolding cs by (simp_all add: linked_append)
  from b assms(3) have "us \<noteq> []" and lu: "last us = l"
    by (auto split: if_splits)
  then obtain xs where us: "us = xs @ [l]"
    by (metis append_butlast_last_id)
  from b assms(4) obtain ys where vs: "vs = r # ys"
    by (cases vs) auto
  from a have "linked h p (if xs = [] then None else Some (last xs)) [l] (Some n)"
    unfolding us by (simp add: linked_append)
  then have 1: "lsb (h ! l) = (if xs = [] then None else Some (last xs))"
    by simp
  from b have "linked h p (Some n) (r # ys) None"
    unfolding vs by simp
  then have 2: "rsb (h ! r) = (if ys = [] then None else Some (hd ys))"
    by (cases ys) simp_all
  have "cs = xs @ [l, n, r] @ ys"
    unfolding cs us vs by simp
  with 1 2 show ?thesis by blast
qed

lemma linked_change_nxt:
  assumes "linked h p prev xs nxt" and "distinct xs" and "length h \<le> length h'"
    and "\<And>c. c \<in> set xs \<Longrightarrow> parent (h' ! c) = parent (h ! c) \<and> lsb (h' ! c) = lsb (h ! c)"
    and "\<And>c. c \<in> set xs \<Longrightarrow> c \<noteq> last xs \<Longrightarrow> rsb (h' ! c) = rsb (h ! c)"
    and "xs \<noteq> [] \<Longrightarrow> rsb (h' ! last xs) = nxt'"
  shows "linked h' p prev xs nxt'"
  using assms
proof (induction xs arbitrary: prev)
  case Nil
  show ?case by simp
next
  case (Cons c cs)
  have c: "c < length h'" "parent (h' ! c) = Some p" "lsb (h' ! c) = prev"
    using Cons.prems(1,3) Cons.prems(4) [of c] by simp_all
  show ?case
  proof (cases cs)
    case Nil
    with c Cons.prems(6) show ?thesis by simp
  next
    case (Cons d ds)
    then have ne: "cs \<noteq> []" by simp
    then have lc: "last (c # cs) = last cs" by simp
    have "last cs \<in> set cs" using ne by simp
    with Cons.prems(2) have "c \<noteq> last (c # cs)" unfolding lc by auto
    then have r: "rsb (h' ! c) = rsb (h ! c)"
      using Cons.prems(5) [of c] by simp
    have "linked h' p (Some c) cs nxt'"
    proof (rule Cons.IH)
      show "linked h p (Some c) cs nxt" using Cons.prems(1) by simp
      show "distinct cs" using Cons.prems(2) by simp
      show "length h \<le> length h'" by (rule Cons.prems(3))
      show "parent (h' ! x) = parent (h ! x) \<and> lsb (h' ! x) = lsb (h ! x)" if "x \<in> set cs" for x
        using Cons.prems(4) [of x] that by simp
      show "rsb (h' ! x) = rsb (h ! x)" if "x \<in> set cs" "x \<noteq> last cs" for x
        using Cons.prems(5) [of x] that unfolding lc by simp
      show "rsb (h' ! last cs) = nxt'" if "cs \<noteq> []"
        using Cons.prems(6) unfolding lc by simp
    qed
    with c r Cons.prems(1) Cons show ?thesis by simp
  qed
qed

lemma linked_change_prev:
  assumes "linked h p prev ys nxt" and "distinct ys" and "length h \<le> length h'"
    and "\<And>c. c \<in> set ys \<Longrightarrow> parent (h' ! c) = parent (h ! c) \<and> rsb (h' ! c) = rsb (h ! c)"
    and "\<And>c. c \<in> set ys \<Longrightarrow> c \<noteq> hd ys \<Longrightarrow> lsb (h' ! c) = lsb (h ! c)"
    and "ys \<noteq> [] \<Longrightarrow> lsb (h' ! hd ys) = prev'"
  shows "linked h' p prev' ys nxt"
proof (cases ys)
  case Nil
  then show ?thesis by simp
next
  case (Cons y ys')
  have y: "y < length h'" "parent (h' ! y) = Some p" "rsb (h' ! y) = rsb (h ! y)"
      "lsb (h' ! y) = prev'"
    using assms(1,3) assms(4) [of y] assms(6) unfolding Cons by simp_all
  have "linked h' p (Some y) ys' nxt"
  proof (rule linked_cong)
    show "linked h p (Some y) ys' nxt" using assms(1) unfolding Cons by simp
    show "length h \<le> length h'" by (rule assms(3))
    fix c assume c: "c \<in> set ys'"
    then have "c \<noteq> hd ys" using assms(2) unfolding Cons by auto
    moreover have "c \<in> set ys" using c unfolding Cons by simp
    ultimately show "parent (h' ! c) = parent (h ! c)
              \<and> lsb (h' ! c) = lsb (h ! c) \<and> rsb (h' ! c) = rsb (h ! c)"
      using assms(4) [of c] assms(5) [of c] by simp
  qed
  with y assms(1) show ?thesis unfolding Cons by simp
qed

lemma attach_new_node_links:
  assumes "p < length h" and "\<forall>c \<in> set (children (h ! p)). c < length h"
  shows "\<exists>h'. attach_to_tree (fst (Node h k v)) (length h) (Some p) = Inr h'
           \<and> length h' = Suc (length h)
           \<and> children (h' ! p) = children (h ! p) @ [length h]
           \<and> parent (h' ! length h) = Some p
           \<and> lsb (h' ! length h)
               = (if children (h ! p) = [] then None else Some (last (children (h ! p))))
           \<and> rsb (h' ! length h) = None
           \<and> (children (h ! p) \<noteq> [] \<longrightarrow> rsb (h' ! last (children (h ! p))) = Some (length h))
           \<and> (\<forall>a < length h. parent (h' ! a) = parent (h ! a) \<and> lsb (h' ! a) = lsb (h ! a)
                  \<and> (children (h ! p) = [] \<or> a \<noteq> last (children (h ! p))
                       \<longrightarrow> rsb (h' ! a) = rsb (h ! a)))"
proof (cases "children (h ! p) = []")
  case True
  then show ?thesis
    using assms unfolding Node_def attach_to_tree_def getRightChild_def addChild_def deref_def
    by (simp add: Let_def nth_append nth_list_update)
next
  case False
  then have l: "last (children (h ! p)) < length h"
    using assms(2) by simp
  from False have "Suc 0 \<le> length (children (h ! p))"
    by (cases "children (h ! p)") simp_all
  then show ?thesis
    using assms(1) l False
    unfolding Node_def attach_to_tree_def getRightChild_def addChild_def deref_def
    by (simp add: Let_def nth_append nth_list_update)
qed

lemma attach_keeps_siblings:
  assumes "siblings_ok h p"
  shows "\<exists>h'. attach_to_tree (fst (Node h k v)) (length h) (Some p) = Inr h'
           \<and> children (h' ! p) = children (h ! p) @ [length h]
           \<and> siblings_ok h' p"
proof -
  define cs where "cs = children (h ! p)"
  have p: "p < length h" and dc: "distinct cs" and pc: "p \<notin> set cs"
      and lk: "linked h p None cs None"
    using assms unfolding siblings_ok_def cs_def by simp_all
  have v: "\<forall>c \<in> set (children (h ! p)). c < length h"
    using lk linked_valid unfolding cs_def by blast
  obtain h' where h': "attach_to_tree (fst (Node h k v)) (length h) (Some p) = Inr h'"
      and len: "length h' = Suc (length h)"
      and ch: "children (h' ! p) = cs @ [length h]"
      and new: "parent (h' ! length h) = Some p"
        "lsb (h' ! length h) = (if cs = [] then None else Some (last cs))"
        "rsb (h' ! length h) = None"
      and lst: "cs \<noteq> [] \<longrightarrow> rsb (h' ! last cs) = Some (length h)"
      and old: "\<forall>a < length h. parent (h' ! a) = parent (h ! a) \<and> lsb (h' ! a) = lsb (h ! a)
                  \<and> (cs = [] \<or> a \<noteq> last cs \<longrightarrow> rsb (h' ! a) = rsb (h ! a))"
    using attach_new_node_links [OF p v, of k v] unfolding cs_def by blast
  have a: "linked h' p None cs (Some (length h))"
  proof (rule linked_change_nxt [OF lk dc])
    show "length h \<le> length h'" using len by simp
    show "parent (h' ! c) = parent (h ! c) \<and> lsb (h' ! c) = lsb (h ! c)" if "c \<in> set cs" for c
      using old v that unfolding cs_def by blast
    show "rsb (h' ! c) = rsb (h ! c)" if "c \<in> set cs" "c \<noteq> last cs" for c
      using old v that unfolding cs_def by blast
    show "rsb (h' ! last cs) = Some (length h)" if "cs \<noteq> []"
      using lst that by simp
  qed
  have b: "linked h' p (if cs = [] then None else Some (last cs)) [length h] None"
    using new len by simp
  have "linked h' p None (cs @ [length h]) None"
    unfolding linked_append using a b by simp
  moreover have "distinct (cs @ [length h])"
    using dc v unfolding cs_def by auto
  moreover have "p \<notin> set (cs @ [length h])"
    using pc p by simp
  moreover have "p < length h'"
    using p len by simp
  ultimately have "siblings_ok h' p"
    unfolding siblings_ok_def ch by simp
  with h' ch show ?thesis
    unfolding cs_def by blast
qed

lemma process_binary_logic_ops_append:
  "process_binary_logic_ops (xs @ ys) h
     = bnd (process_binary_logic_ops xs h) (process_binary_logic_ops ys)"
proof (induction xs arbitrary: h)
  case Nil
  show ?case by simp
next
  case (Cons n ns)
  show ?case
  proof (cases "fold_binary_op h n")
    case (Inl ex)
    then show ?thesis by simp
  next
    case (Inr h2)
    with Cons.IH [of h2] show ?thesis by simp
  qed
qed

lemma fold_binary_op_siblings:
  assumes ok: "siblings_ok h p" and par: "parent (h ! n) = Some p"
    and mem: "n \<in> set (children (h ! p))" and fresh: "children (h ! n) = []"
    and l: "lsb (h ! n) = Some l" and r: "rsb (h ! n) = Some r"
  shows "\<exists>h' xs ys. children (h ! p) = xs @ [l, n, r] @ ys
           \<and> fold_binary_op h n = Inr h'
           \<and> length h' = length h
           \<and> children (h' ! n) = [l, r]
           \<and> children (h' ! p) = xs @ [n] @ ys
           \<and> l \<notin> set (xs @ ys) \<and> r \<notin> set (xs @ ys)
           \<and> parent (h' ! l) = Some n \<and> parent (h' ! r) = Some n
           \<and> lsb (h' ! l) = None \<and> rsb (h' ! l) = Some r
           \<and> lsb (h' ! r) = Some l \<and> rsb (h' ! r) = None
           \<and> parent (h' ! n) = Some p
           \<and> lsb (h' ! n) = (if xs = [] then None else Some (last xs))
           \<and> rsb (h' ! n) = (if ys = [] then None else Some (hd ys))
           \<and> (xs \<noteq> [] \<longrightarrow> rsb (h' ! last xs) = Some n)
           \<and> (ys \<noteq> [] \<longrightarrow> lsb (h' ! hd ys) = Some n)
           \<and> siblings_ok h' n \<and> siblings_ok h' p
           \<and> (\<forall>a < length h. a \<noteq> n \<and> a \<noteq> p \<longrightarrow> children (h' ! a) = children (h ! a))
           \<and> (\<forall>a < length h. a \<notin> set (children (h ! p)) \<longrightarrow> parent (h' ! a) = parent (h ! a)
                  \<and> lsb (h' ! a) = lsb (h ! a) \<and> rsb (h' ! a) = rsb (h ! a))
           \<and> (\<forall>a < length h. kind (h' ! a) = kind (h ! a) \<and> nvalue (h' ! a) = nvalue (h ! a))"
proof -
  have p: "p < length h" and dc: "distinct (children (h ! p))"
      and pc: "p \<notin> set (children (h ! p))"
      and lk: "linked h p None (children (h ! p)) None"
    using ok unfolding siblings_ok_def by simp_all
  obtain xs ys where cs: "children (h ! p) = xs @ [l, n, r] @ ys"
      and ol: "lsb (h ! l) = (if xs = [] then None else Some (last xs))"
      and orr: "rsb (h ! r) = (if ys = [] then None else Some (hd ys))"
    using linked_layout [OF lk mem l r] by blast
  have v: "\<And>c. c \<in> set (children (h ! p)) \<Longrightarrow> c < length h"
    using lk linked_valid by blast
  have vn: "n < length h" "l < length h" "r < length h"
    using v unfolding cs by simp_all
  have vxy: "\<forall>c \<in> set (xs @ ys). c < length h"
    using v unfolding cs by simp
  have d: "l \<noteq> n" "l \<noteq> r" "n \<noteq> r" "p \<noteq> l" "p \<noteq> n" "p \<noteq> r"
      "l \<notin> set xs" "n \<notin> set xs" "r \<notin> set xs" "l \<notin> set ys" "n \<notin> set ys" "r \<notin> set ys"
      "distinct xs" "distinct ys" "set xs \<inter> set ys = {}"
    using dc pc unfolding cs by auto
  obtain h' where f: "fold_binary_op h n = Inr h'"
      and len: "length h' = length h"
      and cn: "children (h' ! n) = [l, r]"
      and cp: "children (h' ! p) = xs @ [n] @ ys"
      and pl: "parent (h' ! l) = Some n" "parent (h' ! r) = Some n"
      and ll: "lsb (h' ! l) = None" "rsb (h' ! l) = Some r"
      and lr: "lsb (h' ! r) = Some l" "rsb (h' ! r) = None"
      and pn: "parent (h' ! n) = Some p"
      and ln: "lsb (h' ! n) = (if xs = [] then None else Some (last xs))"
      and rn: "rsb (h' ! n) = (if ys = [] then None else Some (hd ys))"
      and lx: "xs \<noteq> [] \<longrightarrow> rsb (h' ! last xs) = Some n"
      and hy: "ys \<noteq> [] \<longrightarrow> lsb (h' ! hd ys) = Some n"
      and fp: "\<forall>a < length h. a \<noteq> l \<and> a \<noteq> r \<longrightarrow> parent (h' ! a) = parent (h ! a)"
      and fl: "\<forall>a < length h. a \<noteq> l \<and> a \<noteq> n \<and> a \<noteq> r \<and> (ys \<noteq> [] \<longrightarrow> a \<noteq> hd ys)
                  \<longrightarrow> lsb (h' ! a) = lsb (h ! a)"
      and fr: "\<forall>a < length h. a \<noteq> l \<and> a \<noteq> n \<and> a \<noteq> r \<and> (xs \<noteq> [] \<longrightarrow> a \<noteq> last xs)
                  \<longrightarrow> rsb (h' ! a) = rsb (h ! a)"
      and fc: "\<forall>a < length h. a \<noteq> n \<and> a \<noteq> p \<longrightarrow> children (h' ! a) = children (h ! a)"
      and fk: "\<forall>a < length h. kind (h' ! a) = kind (h ! a) \<and> nvalue (h' ! a) = nvalue (h ! a)"
    using fold_binary_op_layout [OF vn p vxy par l r cs dc pc fresh ol orr] by blast
  have okn: "siblings_ok h' n"
    unfolding siblings_ok_def cn using vn len d pl ll lr by simp
  from lk have lxs: "linked h p None xs (Some l)"
      and lys: "linked h p (Some r) ys None"
    unfolding cs by (simp_all add: linked_append)
  have vx: "c < length h" if "c \<in> set xs" for c
    using vxy that by simp
  have vy: "c < length h" if "c \<in> set ys" for c
    using vxy that by simp
  have hdy: "hd ys \<in> set ys" if "ys \<noteq> []"
    using that by simp
  have lsx: "last xs \<in> set xs" if "xs \<noteq> []"
    using that by simp
  have a: "linked h' p None xs (Some n)"
  proof (rule linked_change_nxt [OF lxs d(13)])
    show "length h \<le> length h'" using len by simp
    show "parent (h' ! c) = parent (h ! c) \<and> lsb (h' ! c) = lsb (h ! c)" if "c \<in> set xs" for c
    proof -
      have "c \<noteq> l" "c \<noteq> n" "c \<noteq> r" using that d by auto
      moreover have "ys \<noteq> [] \<longrightarrow> c \<noteq> hd ys"
      proof (intro impI notI)
        assume "ys \<noteq> []" "c = hd ys"
        with hdy have "c \<in> set ys" by simp
        with that d(15) show False by blast
      qed
      ultimately show ?thesis using fp fl vx [OF that] by blast
    qed
    show "rsb (h' ! c) = rsb (h ! c)" if "c \<in> set xs" "c \<noteq> last xs" for c
    proof -
      have "c \<noteq> l" "c \<noteq> n" "c \<noteq> r" using that d by auto
      then show ?thesis using fr vx [OF that(1)] that(2) by blast
    qed
    show "rsb (h' ! last xs) = Some n" if "xs \<noteq> []"
      using lx that by simp
  qed
  have b: "linked h' p (Some n) ys None"
  proof (rule linked_change_prev [OF lys d(14)])
    show "length h \<le> length h'" using len by simp
    show "parent (h' ! c) = parent (h ! c) \<and> rsb (h' ! c) = rsb (h ! c)" if "c \<in> set ys" for c
    proof -
      have "c \<noteq> l" "c \<noteq> n" "c \<noteq> r" using that d by auto
      moreover have "xs \<noteq> [] \<longrightarrow> c \<noteq> last xs"
      proof (intro impI notI)
        assume "xs \<noteq> []" "c = last xs"
        with lsx have "c \<in> set xs" by simp
        with that d(15) show False by blast
      qed
      ultimately show ?thesis using fp fr vy [OF that] by blast
    qed
    show "lsb (h' ! c) = lsb (h ! c)" if "c \<in> set ys" "c \<noteq> hd ys" for c
    proof -
      have "c \<noteq> l" "c \<noteq> n" "c \<noteq> r" using that d by auto
      then show ?thesis using fl vy [OF that(1)] that(2) by blast
    qed
    show "lsb (h' ! hd ys) = Some n" if "ys \<noteq> []"
      using hy that by simp
  qed
  have c: "linked h' p (if xs = [] then None else Some (last xs)) (n # ys) None"
  proof (cases ys)
    case Nil
    with vn(1) len pn ln rn show ?thesis by simp
  next
    case (Cons y ys')
    with vn(1) len pn ln rn b show ?thesis by simp
  qed
  have "linked h' p None (xs @ n # ys) None"
    unfolding linked_append using a c by simp
  moreover have "distinct (xs @ n # ys)" "p \<notin> set (xs @ n # ys)"
    using dc pc unfolding cs by auto
  ultimately have okp: "siblings_ok h' p"
    unfolding siblings_ok_def cp using p len by simp
  have out: "parent (h' ! a) = parent (h ! a) \<and> lsb (h' ! a) = lsb (h ! a)
               \<and> rsb (h' ! a) = rsb (h ! a)"
    if "a < length h" "a \<notin> set (children (h ! p))" for a
  proof -
    have "a \<noteq> l" "a \<noteq> n" "a \<noteq> r" "a \<notin> set xs" "a \<notin> set ys"
      using that(2) unfolding cs by auto
    moreover from this have "xs \<noteq> [] \<longrightarrow> a \<noteq> last xs" "ys \<noteq> [] \<longrightarrow> a \<noteq> hd ys"
      using lsx hdy by auto
    ultimately show ?thesis using fp fl fr that(1) by blast
  qed
  have stray: "l \<notin> set (xs @ ys)" "r \<notin> set (xs @ ys)"
    using d by simp_all
  from cs f len cn cp stray pl ll lr pn ln rn lx hy okn okp fc out fk show ?thesis
    by blast
qed

lemma find_or_bang_walk:
  "normalize_command_parts sample_catalogue
     [word ''find'' 0, word ''.'' 5, word ''-name'' 7, word ''a'' 13, word ''-or'' 15,
      word ''-name'' 19, word ''b'' 25, word ''!'' 27]
     (start_state root_store (Some 0)) = Inr find_or_bang"
  by code_simp

text \<open>
  Claim C2, as the code has it. The second pass is reached when the first has run to
  its end, that is when every recorded unary operator had a right sibling. Let it
  have folded the operators recorded before \<open>n\<close>, and let \<open>n\<close>, still without
  children, then stand among the children of its parent \<open>p\<close>, a sibling list as
  \<open>attach_to_tree\<close> and the folds keep it, with a left sibling \<open>l\<close> and a right sibling
  \<open>r\<close>. Then \<open>l\<close>, \<open>n\<close>, \<open>r\<close> stand next to each other under \<open>p\<close>, the fold of \<open>n\<close>
  succeeds and the pass goes on with the operators recorded after \<open>n\<close>. After the
  fold the children of \<open>n\<close> are exactly \<open>l\<close> and \<open>r\<close> in this order, both with \<open>n\<close> as
  parent and linked to each other only; under \<open>p\<close> the operator has taken the place
  of the three, so neither operand is left at that level; \<open>n\<close> is linked with the
  sibling before \<open>l\<close> and the one after \<open>r\<close>, where they exist; the children of \<open>p\<close>
  and of \<open>n\<close> are sibling lists again; and no other node has other children, or another
  kind or value, nor a node outside the children of \<open>p\<close> other links.
\<close>

theorem recorded_binary_operator_folded:
  assumes "process_unary_logic_ops (unary_logic_ops st) (st_store st) = Inr (False, h1)"
    and "binary_logic_ops st = bs1 @ n # bs2"
    and "process_binary_logic_ops bs1 h1 = Inr h"
    and "siblings_ok h p" and "parent (h ! n) = Some p" and "n \<in> set (children (h ! p))"
    and "children (h ! n) = []"
    and "lsb (h ! n) = Some l" and "rsb (h ! n) = Some r"
  shows "\<exists>h' xs ys. children (h ! p) = xs @ [l, n, r] @ ys
           \<and> fold_binary_op h n = Inr h'
           \<and> process_logic_operators st = process_binary_logic_ops bs2 h'
           \<and> length h' = length h
           \<and> children (h' ! n) = [l, r]
           \<and> children (h' ! p) = xs @ [n] @ ys
           \<and> l \<notin> set (xs @ ys) \<and> r \<notin> set (xs @ ys)
           \<and> parent (h' ! l) = Some n \<and> parent (h' ! r) = Some n
           \<and> lsb (h' ! l) = None \<and> rsb (h' ! l) = Some r
           \<and> lsb (h' ! r) = Some l \<and> rsb (h' ! r) = None
           \<and> parent (h' ! n) = Some p
           \<and> lsb (h' ! n) = (if xs = [] then None else Some (last xs))
           \<and> rsb (h' ! n) = (if ys = [] then None else Some (hd ys))
           \<and> (xs \<noteq> [] \<longrightarrow> rsb (h' ! last xs) = Some n)
           \<and> (ys \<noteq> [] \<longrightarrow> lsb (h' ! hd ys) = Some n)
           \<and> siblings_ok h' n \<and> siblings_ok h' p
           \<and> (\<forall>a < length h. a \<noteq> n \<and> a \<noteq> p \<longrightarrow> children (h' ! a) = children (h ! a))
           \<and> (\<forall>a < length h. a \<notin> set (children (h ! p)) \<longrightarrow> parent (h' ! a) = parent (h ! a)
                  \<and> lsb (h' ! a) = lsb (h ! a) \<and> rsb (h' ! a) = rsb (h ! a))
           \<and> (\<forall>a < length h. kind (h' ! a) = kind (h ! a) \<and> nvalue (h' ! a) = nvalue (h ! a))"
proof -
  have pass: "process_logic_operators st = bnd (fold_binary_op h n) (process_binary_logic_ops bs2)"
    unfolding process_logic_operators_def assms(1) assms(2)
    by (simp add: process_binary_logic_ops_append assms(3))
  have run: "process_logic_operators st = process_binary_logic_ops bs2 h'"
    if "fold_binary_op h n = Inr h'" for h'
    unfolding pass that by simp
  from fold_binary_op_siblings [OF assms(4-9)] run show ?thesis
    by blast
qed

theorem recorded_binary_operator_folded_witness:
  "process_unary_logic_ops (unary_logic_ops find_or) (st_store find_or)
     = Inr (False, st_store find_or)
   \<and> binary_logic_ops find_or = [] @ 5 # []
   \<and> siblings_ok (st_store find_or) 1
   \<and> lsb (st_store find_or ! 5) = Some 3 \<and> rsb (st_store find_or ! 5) = Some 6
   \<and> (\<exists>h'. process_logic_operators find_or = Inr h'
          \<and> children (h' ! 5) = [3, 6] \<and> children (h' ! 1) = [2, 5]
          \<and> parent (h' ! 3) = Some 5 \<and> parent (h' ! 6) = Some 5
          \<and> lsb (h' ! 5) = Some 2 \<and> rsb (h' ! 5) = None \<and> rsb (h' ! 2) = Some 5
          \<and> siblings_ok h' 5 \<and> siblings_ok h' 1)"
proof -
  have a: "process_unary_logic_ops (unary_logic_ops find_or) (st_store find_or)
             = Inr (False, st_store find_or)"
    by (simp add: find_or_def)
  have b: "binary_logic_ops find_or = [] @ 5 # []"
    by (simp add: find_or_def)
  have c: "process_binary_logic_ops [] (st_store find_or) = Inr (st_store find_or)"
    by simp
  have d: "siblings_ok (st_store find_or) 1"
    by (simp add: siblings_ok_def find_or_def)
  have e: "parent (st_store find_or ! 5) = Some 1" "5 \<in> set (children (st_store find_or ! 1))"
      "children (st_store find_or ! 5) = []"
      "lsb (st_store find_or ! 5) = Some 3" "rsb (st_store find_or ! 5) = Some 6"
    by (simp_all add: find_or_def)
  obtain h' xs ys where ch: "children (st_store find_or ! 1) = xs @ [3, 5, 6] @ ys"
      and run: "process_logic_operators find_or = process_binary_logic_ops [] h'"
      and new: "children (h' ! 5) = [3, 6]" "children (h' ! 1) = xs @ [5] @ ys"
        "parent (h' ! 3) = Some 5" "parent (h' ! 6) = Some 5"
        "lsb (h' ! 5) = (if xs = [] then None else Some (last xs))"
        "rsb (h' ! 5) = (if ys = [] then None else Some (hd ys))"
        "xs \<noteq> [] \<longrightarrow> rsb (h' ! last xs) = Some 5"
        "siblings_ok h' 5" "siblings_ok h' 1"
    using recorded_binary_operator_folded [OF a b c d e] by blast
  have "[2, 3, 5, 6] = xs @ [3, 5, 6] @ ys"
    using ch by (simp add: find_or_def)
  then have xy: "xs = [2]" "ys = []"
    by (auto simp add: Cons_eq_append_conv append_eq_Cons_conv)
  have "process_logic_operators find_or = Inr h'"
    using run by simp
  with new a b d e(4,5) show ?thesis
    unfolding xy by auto
qed

text \<open>
  Claim C2 as stated fails when the second pass is not reached. In
  \<open>find . -name a -or -name b !\<close> the walk records \<open>-or\<close>, which has both its siblings,
  but the trailing \<open>!\<close> has no right sibling: the first loop returns, and the store
  comes back as the walk left it, \<open>-or\<close> without children and both operands still
  beside it.
\<close>

theorem unfolded_operator_counterexample:
  "binary_logic_ops find_or_bang = [5]
   \<and> lsb (st_store find_or_bang ! 5) = Some 3
   \<and> rsb (st_store find_or_bang ! 5) = Some 6
   \<and> process_logic_operators find_or_bang = Inr (st_store find_or_bang)
   \<and> children (st_store find_or_bang ! 5) = []
   \<and> children (st_store find_or_bang ! 1) = [2, 3, 5, 6, 8]"
  by code_simp

section \<open>Linearization and back\<close>

lemma to_list_children_acc:
  assumes "\<And>t acc. t \<in> set ts \<Longrightarrow> to_list t order acc = acc @ to_list t order []"
  shows "to_list_children ts order acc = acc @ to_list_children ts order []"
  using assms
proof (induction ts arbitrary: acc)
  case Nil
  show ?case by simp
next
  case (Cons t ts)
  have a: "to_list t order acc = acc @ to_list t order []"
    by (rule Cons.prems) simp
  have b: "to_list_children ts order xs = xs @ to_list_children ts order []" for xs
    by (rule Cons.IH) (rule Cons.prems, simp)
  have "to_list_children (t # ts) order acc
          = to_list t order acc @ to_list_children ts order []"
    by (simp only: to_list.simps to_list_children.simps b [of "to_list t order acc"])
  also have "\<dots> = acc @ (to_list t order [] @ to_list_children ts order [])"
    by (simp only: a append_assoc)
  also have "to_list t order [] @ to_list_children ts order []
               = to_list_children (t # ts) order []"
    by (simp only: to_list.simps to_list_children.simps b [of "to_list t order []"])
  finally show ?case .
qed

lemma to_list_acc: "to_list t order acc = acc @ to_list t order []"
proof (induction t arbitrary: acc)
  case (NTree k v ts)
  have c: "to_list_children ts order xs = xs @ to_list_children ts order []" for xs
    by (rule to_list_children_acc) (rule NTree.IH)
  show ?case
  proof (cases "order = ''dfs''")
    case True
    have "to_list (NTree k v ts) order acc
            = (acc @ [symbol k v]) @ to_list_children ts order [] @ [''<NO_EXPAND>'']"
      using True by (simp add: c [of "acc @ [symbol k v]", unfolded True])
    moreover have "to_list (NTree k v ts) order []
            = [symbol k v] @ to_list_children ts order [] @ [''<NO_EXPAND>'']"
      using True by (simp add: c [of "[symbol k v]", unfolded True])
    ultimately show ?thesis by simp
  next
    case False
    then show ?thesis by simp
  qed
qed

lemma to_list_dfs:
  "to_list (NTree k v ts) ''dfs'' []
     = symbol k v # to_list_children ts ''dfs'' [] @ [''<NO_EXPAND>'']"
proof -
  have "to_list_children ts ''dfs'' [symbol k v] = [symbol k v] @ to_list_children ts ''dfs'' []"
    by (rule to_list_children_acc) (rule to_list_acc)
  then show ?thesis by simp
qed

lemma to_list_children_Cons:
  "to_list_children (t # ts) ''dfs'' []
     = to_list t ''dfs'' [] @ to_list_children ts ''dfs'' []"
proof -
  have "to_list_children ts ''dfs'' (to_list t ''dfs'' [])
          = to_list t ''dfs'' [] @ to_list_children ts ''dfs'' []"
    by (rule to_list_children_acc) (rule to_list_acc)
  then show ?thesis by simp
qed

lemma split_symbol_symbol:
  assumes "kind_ok k"
  shows "split_symbol (symbol k v) = Inr (upper k, v)" and "symbol k v \<noteq> ''<NO_EXPAND>''"
proof -
  have u: "CHR ''_'' \<notin> set (upper k)" and n: "upper k \<noteq> ''<NO''"
    using assms by (simp_all add: kind_ok_def)
  have u': "\<forall>x \<in> set (upper k). x \<noteq> CHR ''_''"
    using u by auto
  have tw: "takeWhile (\<lambda>c. c \<noteq> CHR ''_'') (symbol k v) = upper k"
    unfolding symbol_def using u' by simp
  have dw: "dropWhile (\<lambda>c. c \<noteq> CHR ''_'') (symbol k v) = CHR ''_'' # v"
    unfolding symbol_def using u' by simp
  show "split_symbol (symbol k v) = Inr (upper k, v)"
    unfolding split_symbol_def tw dw by (simp add: symbol_def)
  show "symbol k v \<noteq> ''<NO_EXPAND>''"
  proof
    assume "symbol k v = ''<NO_EXPAND>''"
    then have "takeWhile (\<lambda>c. c \<noteq> CHR ''_'') (symbol k v)
                 = takeWhile (\<lambda>c. c \<noteq> CHR ''_'') ''<NO_EXPAND>''"
      by simp
    with tw n show False by simp
  qed
qed

lemma builder_kinds_ok: "list_all kind_ok builder_kinds"
  by code_simp

lemma repr_list_stable:
  assumes "\<And>a t. t \<in> set ts \<Longrightarrow> lo \<le> a \<Longrightarrow> a < hi \<Longrightarrow> repr h a t \<Longrightarrow> repr h' a t"
    and "\<forall>a \<in> set as. lo \<le> a \<and> a < hi"
    and "repr_list h as ts"
  shows "repr_list h' as ts"
  using assms
proof (induction ts arbitrary: as)
  case Nil
  then show ?case by (cases as) simp_all
next
  case (Cons t ts)
  show ?case
  proof (cases as)
    case Nil
    with Cons.prems(3) show ?thesis by simp
  next
    case (Cons a as')
    have 1: "repr h a t" and 2: "repr_list h as' ts"
      using Cons.prems(3) Cons by simp_all
    have 3: "lo \<le> a" "a < hi" and 4: "\<forall>a \<in> set as'. lo \<le> a \<and> a < hi"
      using Cons.prems(2) Cons by simp_all
    have "repr h' a t"
      by (rule Cons.prems(1) [OF _ 3 1]) simp
    moreover have "repr_list h' as' ts"
    proof (rule Cons.IH [OF _ 4 2])
      fix b u
      assume "u \<in> set ts" "lo \<le> b" "b < hi" "repr h b u"
      then show "repr h' b u"
        using Cons.prems(1) [of u b] by simp
    qed
    ultimately show ?thesis
      using Cons by simp
  qed
qed

lemma repr_stable:
  assumes agree: "\<forall>a. lo \<le> a \<and> a < hi \<longrightarrow>
             a < length h' \<and> kind (h' ! a) = kind (h ! a) \<and> nvalue (h' ! a) = nvalue (h ! a)
             \<and> children (h' ! a) = children (h ! a)"
    and closed: "closed_between lo hi h"
  shows "lo \<le> a \<Longrightarrow> a < hi \<Longrightarrow> repr h a t \<Longrightarrow> repr h' a t"
proof (induction t arbitrary: a)
  case (NTree k v ts)
  have r: "kind (h ! a) = k" "nvalue (h ! a) = v" "repr_list h (children (h ! a)) ts"
    using NTree.prems(3) by simp_all
  have ag: "a < length h'" "kind (h' ! a) = kind (h ! a)" "nvalue (h' ! a) = nvalue (h ! a)"
      "children (h' ! a) = children (h ! a)"
    using agree NTree.prems(1,2) by blast+
  have c: "\<forall>b \<in> set (children (h ! a)). lo \<le> b \<and> b < hi"
    using closed [unfolded closed_between_def] NTree.prems(1,2) by blast
  have "repr_list h' (children (h ! a)) ts"
  proof (rule repr_list_stable [OF _ c r(3)])
    fix b u
    assume "u \<in> set ts" "lo \<le> b" "b < hi" "repr h b u"
    then show "repr h' b u"
      by (rule NTree.IH)
  qed
  then show ?case
    using r(1,2) ag by simp
qed

lemma frame_refl: "frame h h c"
  by (simp add: frame_def)

lemma frame_trans:
  assumes "frame h h1 c" and "frame h1 h2 c"
  shows "frame h h2 c"
  using assms unfolding frame_def by auto

lemma frame_other:
  assumes "frame h h1 c" and "frame h1 h2 n" and "length h \<le> n"
  shows "frame h h2 c"
  using assms unfolding frame_def by auto

lemma wf_store_attach:
  assumes "wf_store h" and "p < length h" and "length h' = Suc (length h)"
    and "children (h' ! length h) = []"
    and "children (h' ! p) = children (h ! p) @ [length h]"
    and "\<forall>a < length h. a \<noteq> p \<longrightarrow> children (h' ! a) = children (h ! a)"
  shows "wf_store h'"
  unfolding wf_store_def
proof (intro allI impI ballI)
  fix a c
  assume a: "a < length h'" and c: "c \<in> set (children (h' ! a))"
  consider "a = length h" | "a = p" | "a < length h" "a \<noteq> p"
    using a assms(3) by fastforce
  then show "c < length h'"
  proof cases
    case 1
    with c assms(4) show ?thesis by simp
  next
    case 2
    with c assms(1,2,3,5) show ?thesis
      by (auto simp: wf_store_def less_Suc_eq)
  next
    case 3
    with c assms(1,3,6) show ?thesis
      by (auto simp: wf_store_def less_Suc_eq)
  qed
qed

lemma reads_forest_Nil:
  assumes "wf_store h"
  shows "reads_forest h c [] h [] []"
  using assms unfolding reads_forest_def closed_between_def
  by (simp add: frame_refl)

lemma reads_forest_Cons:
  assumes t: "reads_forest h c s1 h1 [n] [t]"
    and ts: "reads_forest h1 c s2 h2 as ts"
    and c: "c < length h"
  shows "reads_forest h c (s1 @ s2) h2 (n # as) (t # ts)"
proof -
  have l1: "\<And>rest. list_to_tree_loop (s1 @ rest) h (Some c) = list_to_tree_loop rest h1 (Some c)"
    and f1: "frame h h1 c"
    and ch1: "children (h1 ! c) = children (h ! c) @ [n]"
    and r1: "repr h1 n t"
    and n: "length h \<le> n" "n < length h1"
    and cl1: "closed_between (length h) (length h1) h1"
    using t unfolding reads_forest_def by (blast, blast, blast, simp, simp, simp, blast)
  have l2: "\<And>rest. list_to_tree_loop (s2 @ rest) h1 (Some c) = list_to_tree_loop rest h2 (Some c)"
    and wf2: "wf_store h2"
    and f2: "frame h1 h2 c"
    and ch2: "children (h2 ! c) = children (h1 ! c) @ as"
    and r2: "repr_list h2 as ts"
    and as: "\<forall>a \<in> set as. length h1 \<le> a \<and> a < length h2"
    and cl2: "closed_between (length h1) (length h2) h2"
    using ts unfolding reads_forest_def by blast+
  have len: "length h \<le> length h1" "length h1 \<le> length h2"
    using f1 f2 unfolding frame_def by simp_all
  have keep: "a < length h2 \<and> kind (h2 ! a) = kind (h1 ! a) \<and> nvalue (h2 ! a) = nvalue (h1 ! a)
                \<and> children (h2 ! a) = children (h1 ! a)"
    if "length h \<le> a" "a < length h1" for a
  proof -
    have "a \<noteq> c" using that(1) c by simp
    then show ?thesis
      using f2 [unfolded frame_def] that(2) len(2) by (metis less_le_trans)
  qed
  have "repr h2 n t"
    by (rule repr_stable [of "length h" "length h1" h2 h1, OF _ cl1 n r1]) (use keep in blast)
  moreover have "\<forall>a \<in> set (n # as). length h \<le> a \<and> a < length h2"
    using n as len by (metis le_trans less_le_trans set_ConsD)
  moreover have "closed_between (length h) (length h2) h2"
    unfolding closed_between_def
  proof (intro allI impI ballI)
    fix a b
    assume a: "length h \<le> a \<and> a < length h2" and b: "b \<in> set (children (h2 ! a))"
    show "length h \<le> b \<and> b < length h2"
    proof (cases "a < length h1")
      case True
      then have "children (h2 ! a) = children (h1 ! a)"
        using keep a by blast
      then have "length h \<le> b \<and> b < length h1"
        using cl1 [unfolded closed_between_def] a True b by metis
      then show ?thesis using len by simp
    next
      case False
      then have "length h1 \<le> b \<and> b < length h2"
        using cl2 [unfolded closed_between_def] a b by (metis not_less)
      then show ?thesis using len by simp
    qed
  qed
  moreover have "list_to_tree_loop ((s1 @ s2) @ rest) h (Some c)
                   = list_to_tree_loop rest h2 (Some c)" for rest
    using l1 [of "s2 @ rest"] l2 [of rest] by simp
  moreover have "children (h2 ! c) = children (h ! c) @ n # as"
    using ch1 ch2 by simp
  ultimately show ?thesis
    unfolding reads_forest_def
    using wf2 frame_trans [OF f1 f2] r2 by simp
qed

lemma forest_from_trees:
  assumes "\<And>t h. t \<in> set ts \<Longrightarrow> wf_store h \<Longrightarrow> c < length h \<Longrightarrow> kinds_ok t \<Longrightarrow>
             \<exists>h'. reads_forest h c (to_list t ''dfs'' []) h' [length h] [t]"
    and "wf_store h" and "c < length h" and "kinds_ok_list ts"
  shows "\<exists>h' as. reads_forest h c (to_list_children ts ''dfs'' []) h' as ts"
  using assms
proof (induction ts arbitrary: h)
  case Nil
  show ?case
    using reads_forest_Nil [OF Nil.prems(2)] by auto
next
  case (Cons t ts)
  have k: "kinds_ok t" "kinds_ok_list ts"
    using Cons.prems(4) by simp_all
  obtain h1 where 1: "reads_forest h c (to_list t ''dfs'' []) h1 [length h] [t]"
    using Cons.prems(1) [OF _ Cons.prems(2,3) k(1)] by auto
  have wf1: "wf_store h1" and f1: "frame h h1 c"
    using 1 unfolding reads_forest_def by blast+
  have c1: "c < length h1"
    using f1 Cons.prems(3) unfolding frame_def by simp
  have "\<exists>h' as. reads_forest h1 c (to_list_children ts ''dfs'' []) h' as ts"
  proof (rule Cons.IH [OF _ wf1 c1 k(2)])
    fix u g
    assume "u \<in> set ts" "wf_store g" "c < length g" "kinds_ok u"
    then show "\<exists>h'. reads_forest g c (to_list u ''dfs'' []) h' [length g] [u]"
      using Cons.prems(1) [of u g] by simp
  qed
  then obtain h2 as where 2: "reads_forest h1 c (to_list_children ts ''dfs'' []) h2 as ts"
    by blast
  have "reads_forest h c (to_list_children (t # ts) ''dfs'' []) h2 (length h # as) (t # ts)"
    unfolding to_list_children_Cons
    by (rule reads_forest_Cons [OF 1 2 Cons.prems(3)])
  then show ?case by blast
qed

lemma reads_tree:
  assumes "wf_store h" and "c < length h" and "kinds_ok t"
  shows "\<exists>h'. reads_forest h c (to_list t ''dfs'' []) h' [length h] [t]"
  using assms
proof (induction t arbitrary: h c)
  case (NTree k v ts)
  have k: "kind_ok k" "kinds_ok_list ts"
    using NTree.prems(3) by simp_all
  have lk: "lower (upper k) = k"
    using k(1) by (simp add: kind_ok_def)
  have cs: "\<forall>b \<in> set (children (h ! c)). b < length h"
    using NTree.prems(1,2) unfolding wf_store_def by blast
  obtain h1 where at: "attach_to_tree (fst (Node h k v)) (length h) (Some c) = Inr h1"
    and len1: "length h1 = Suc (length h)"
    and new: "kind (h1 ! length h) = k" "nvalue (h1 ! length h) = v"
      "parent (h1 ! length h) = Some c" "children (h1 ! length h) = []"
    and ch1: "children (h1 ! c) = children (h ! c) @ [length h]"
    and old: "\<forall>a < length h. kind (h1 ! a) = kind (h ! a) \<and> nvalue (h1 ! a) = nvalue (h ! a)
                \<and> parent (h1 ! a) = parent (h ! a)
                \<and> (a \<noteq> c \<longrightarrow> children (h1 ! a) = children (h ! a))"
    using attach_new_node [OF NTree.prems(2) cs, of k v] by blast
  have wf1: "wf_store h1"
    by (rule wf_store_attach [OF NTree.prems(1,2) len1 new(4) ch1]) (use old in blast)
  have f1: "frame h h1 c"
    unfolding frame_def using len1 old by simp
  have n1: "length h < length h1"
    using len1 by simp
  have "\<exists>h' as. reads_forest h1 (length h) (to_list_children ts ''dfs'' []) h' as ts"
  proof (rule forest_from_trees [OF _ wf1 n1 k(2)])
    fix u g
    assume "u \<in> set ts" "wf_store g" "length h < length g" "kinds_ok u"
    then show "\<exists>h'. reads_forest g (length h) (to_list u ''dfs'' []) h' [length g] [u]"
      by (rule NTree.IH)
  qed
  then obtain h2 as where 2: "reads_forest h1 (length h) (to_list_children ts ''dfs'' []) h2 as ts"
    by blast
  have l2: "\<And>rest. list_to_tree_loop (to_list_children ts ''dfs'' [] @ rest) h1 (Some (length h))
                      = list_to_tree_loop rest h2 (Some (length h))"
    and wf2: "wf_store h2"
    and f2: "frame h1 h2 (length h)"
    and ch2: "children (h2 ! length h) = children (h1 ! length h) @ as"
    and r2: "repr_list h2 as ts"
    and as: "\<forall>a \<in> set as. length h1 \<le> a \<and> a < length h2"
    and cl2: "closed_between (length h1) (length h2) h2"
    using 2 unfolding reads_forest_def by blast+
  have len2: "length h1 \<le> length h2"
    using f2 unfolding frame_def by simp
  have keep: "kind (h2 ! a) = kind (h1 ! a) \<and> nvalue (h2 ! a) = nvalue (h1 ! a)
                \<and> parent (h2 ! a) = parent (h1 ! a)
                \<and> (a \<noteq> length h \<longrightarrow> children (h2 ! a) = children (h1 ! a))"
    if "a < length h1" for a
    using f2 [unfolded frame_def] that by blast
  have step: "list_to_tree_loop (symbol k v # xs) h (Some c)
                = list_to_tree_loop xs h1 (Some (length h))" for xs
    using split_symbol_symbol [OF k(1), of v] at lk
    by (simp add: Node_def)
  have up: "list_to_tree_loop (''<NO_EXPAND>'' # rest) h2 (Some (length h))
              = list_to_tree_loop rest h2 (Some c)" for rest
    using keep [OF n1] new(3) by simp
  have loop: "list_to_tree_loop (to_list (NTree k v ts) ''dfs'' [] @ rest) h (Some c)
                = list_to_tree_loop rest h2 (Some c)" for rest
    unfolding to_list_dfs
    using step [of "to_list_children ts ''dfs'' [] @ ''<NO_EXPAND>'' # rest"]
      l2 [of "''<NO_EXPAND>'' # rest"] up [of rest]
    by simp
  have fr: "frame h h2 c"
    by (rule frame_other [OF f1 f2]) simp
  have chc: "children (h2 ! c) = children (h ! c) @ [length h]"
    using keep [of c] NTree.prems(2) n1 ch1 by simp
  have rp: "repr h2 (length h) (NTree k v ts)"
    using keep [OF n1] new(1,2,4) ch2 r2 n1 len2 by simp
  have cl: "closed_between (length h) (length h2) h2"
    unfolding closed_between_def
  proof (intro allI impI ballI)
    fix a b
    assume a: "length h \<le> a \<and> a < length h2" and b: "b \<in> set (children (h2 ! a))"
    show "length h \<le> b \<and> b < length h2"
    proof (cases "a = length h")
      case True
      then have "b \<in> set as"
        using b ch2 new(4) by simp
      then have "length h1 \<le> b \<and> b < length h2"
        using as by blast
      then show ?thesis using len1 by simp
    next
      case False
      then have "length h1 \<le> a \<and> a < length h2"
        using a len1 by simp
      then have "length h1 \<le> b \<and> b < length h2"
        using cl2 [unfolded closed_between_def] b by blast
      then show ?thesis using len1 by simp
    qed
  qed
  have "reads_forest h c (to_list (NTree k v ts) ''dfs'' []) h2 [length h] [NTree k v ts]"
    unfolding reads_forest_def
    using loop wf2 fr chc rp cl n1 len2 by simp
  then show ?case by blast
qed

text \<open>
  Claim C3, as the code has it. \<open>list_to_tree\<close> does not read the first symbol: it
  makes its own root, of kind \<open>root\<close> and value \<open>root\<close>. Whatever the root of the
  linearized tree is, the subtrees below it come back exactly, in kind, value and
  order at every position, provided their kinds are kinds that a symbol gives back
  (\<open>kind_ok\<close>; the kinds of the Tree Builder are such by \<open>builder_kinds_ok\<close>). The
  round trip is exact for a tree whose root has the value \<open>root\<close>; the root that
  \<open>normalize_ast\<close> makes has the empty value.
\<close>

theorem round_trip_below_root:
  assumes "kinds_ok_list ts"
  shows "rebuilds (list_to_tree (to_list (NTree k v ts) ''dfs'' []) ''dfs'')
           (NTree ''root'' ''root'' ts)"
proof -
  define r0 where "r0 = fst (Node [] ''root'' ''root'')"
  have r0: "Node [] ''root'' ''root'' = (r0, 0)" "length r0 = 1" "kind (r0 ! 0) = ''root''"
      "nvalue (r0 ! 0) = ''root''" "children (r0 ! 0) = []" "parent (r0 ! 0) = None"
    by (simp_all add: r0_def Node_def)
  have wf0: "wf_store r0"
    using r0(2,5) by (simp add: wf_store_def)
  have c0: "0 < length r0"
    using r0(2) by simp
  have "\<exists>h' as. reads_forest r0 0 (to_list_children ts ''dfs'' []) h' as ts"
  proof (rule forest_from_trees [OF _ wf0 c0 assms])
    fix u g
    assume "u \<in> set ts" "wf_store g" "0 < length g" "kinds_ok u"
    then show "\<exists>h'. reads_forest g 0 (to_list u ''dfs'' []) h' [length g] [u]"
      using reads_tree by blast
  qed
  then obtain h' as where rf: "reads_forest r0 0 (to_list_children ts ''dfs'' []) h' as ts"
    by blast
  have l: "\<And>rest. list_to_tree_loop (to_list_children ts ''dfs'' [] @ rest) r0 (Some 0)
                     = list_to_tree_loop rest h' (Some 0)"
    and f: "frame r0 h' 0"
    and ch: "children (h' ! 0) = children (r0 ! 0) @ as"
    and r: "repr_list h' as ts"
    using rf unfolding reads_forest_def by blast+
  have k0: "0 < length h'" "kind (h' ! 0) = ''root''" "nvalue (h' ! 0) = ''root''"
    using f [unfolded frame_def] r0(2,3,4) by auto
  have "list_to_tree_loop (to_list_children ts ''dfs'' [] @ [''<NO_EXPAND>'']) r0 (Some 0) = Inr h'"
    using l [of "[''<NO_EXPAND>'']"] by simp
  then have "list_to_tree (to_list (NTree k v ts) ''dfs'' []) ''dfs'' = Inr (h', 0)"
    unfolding list_to_tree_def to_list_dfs r0(1) by simp
  then show ?thesis
    using k0 ch r r0(5) by (simp add: rebuilds_def)
qed

lemma ls_tree_normalized:
  "yields (normalize_ast sample_catalogue (\<lambda>c. Inr [command [word ''ls'' 0]]) ''ls'' False True)
     ls_tree"
  by code_simp

theorem round_trip_below_root_witness:
  "kinds_ok_list [NTree ''headcommand'' ''ls'' []]
   \<and> rebuilds (list_to_tree (to_list ls_tree ''dfs'' []) ''dfs'')
        (NTree ''root'' ''root'' [NTree ''headcommand'' ''ls'' []])"
proof -
  have a: "kinds_ok_list [NTree ''headcommand'' ''ls'' []]"
    by code_simp
  show ?thesis
    using round_trip_below_root [OF a, of "''root''" "[]"] a
    by (simp add: ls_tree_def)
qed

text \<open>
  Claim C3 as stated fails at the root: the tree of \<open>ls\<close> has a root with the empty
  value, and the tree that comes back has a root with the value \<open>root\<close>.
\<close>

theorem root_value_counterexample:
  "\<not> rebuilds (list_to_tree (to_list ls_tree ''dfs'' []) ''dfs'') ls_tree"
  by code_simp


end
